theory Spec2Isabelle
  imports Main "HOL-Library.Word" "HOL-Library.Multiset"
begin

section \<open>Effect descriptions and the fork and race constructors (Effect/scope.ts)\<close>

text \<open>
  \<^verbatim>\<open>scope.ts\<close> builds instruction nodes with \<^verbatim>\<open>new IFork(..)\<close>,
  \<^verbatim>\<open>new IGetForkScope(..)\<close> and \<^verbatim>\<open>new IRaceWith(..)\<close>. The classes live in
  \<^verbatim>\<open>./primitives\<close>, whose source is not among the sources verified here.

  Modelled from the spec: the instruction classes of \<^verbatim>\<open>./primitives\<close>. Section 3 of
  the specification lists the Task nodes \<^verbatim>\<open>Pure(value)\<close>,
  \<^verbatim>\<open>Fork(task, target-scope-selector)\<close>, \<^verbatim>\<open>GetForkScope(continuation)\<close> and
  \<^verbatim>\<open>RaceWith(left, right, onLeftWin, onRightWin, target-scope-selector)\<close>; the fields
  of each node are the constructor arguments in the order \<^verbatim>\<open>scope.ts\<close> passes them.
  The type parameters stand for the scope type \<open>'s\<close>, the exit type \<open>'x\<close>, the fiber
  handle type \<open>'h\<close> and the type of plain values \<open>'a\<close>. \<^verbatim>\<open>O.Option\<close> is \<open>option\<close>.
\<close>

datatype ('s, 'x, 'h, 'a) effect =
    ISucceed (succeedValue: 'a)
  | IFork (forkValue: "('s, 'x, 'h, 'a) effect") (forkScope: "'s option")
  | IGetForkScope (getForkScopeF: "'s \<Rightarrow> ('s, 'x, 'h, 'a) effect")
  | IRaceWith
      (raceLeft: "('s, 'x, 'h, 'a) effect")
      (raceRight: "('s, 'x, 'h, 'a) effect")
      (raceLeftWins: "'x \<Rightarrow> 'h \<Rightarrow> ('s, 'x, 'h, 'a) effect")
      (raceRightWins: "'x \<Rightarrow> 'h \<Rightarrow> ('s, 'x, 'h, 'a) effect")
      (raceScope: "'s option")

text \<open>
  \<^verbatim>\<open>forkDaemon\<close> reads the module constant \<^verbatim>\<open>globalScope\<close> imported from
  \<^verbatim>\<open>../Scope\<close>; the constant is not among the sources verified here, so it is
  the first parameter.
\<close>

definition forkDaemon :: "'s \<Rightarrow> ('s, 'x, 'h, 'a) effect \<Rightarrow> ('s, 'x, 'h, 'a) effect" where
  "forkDaemon globalScope value = IFork value (Some globalScope)"

definition forkIn :: "'s \<Rightarrow> ('s, 'x, 'h, 'a) effect \<Rightarrow> ('s, 'x, 'h, 'a) effect" where
  "forkIn scope value = IFork value (Some scope)"

definition forkScopeWith :: "('s \<Rightarrow> ('s, 'x, 'h, 'a) effect) \<Rightarrow> ('s, 'x, 'h, 'a) effect" where
  "forkScopeWith f = IGetForkScope f"

text \<open>
  The last parameter of \<^verbatim>\<open>raceWith\<close> is declared \<^verbatim>\<open>scope = O.none\<close>: a call that
  leaves it out gets \<^verbatim>\<open>O.none\<close>. The optional argument is an \<open>option\<close> around the
  \<^verbatim>\<open>O.Option\<close> value: \<open>None\<close> is the call with four arguments.
\<close>

definition raceWith ::
  "('s, 'x, 'h, 'a) effect \<Rightarrow> ('s, 'x, 'h, 'a) effect \<Rightarrow>
   ('x \<Rightarrow> 'h \<Rightarrow> ('s, 'x, 'h, 'a) effect) \<Rightarrow> ('x \<Rightarrow> 'h \<Rightarrow> ('s, 'x, 'h, 'a) effect) \<Rightarrow>
   's option option \<Rightarrow> ('s, 'x, 'h, 'a) effect" where
  "raceWith left right leftWins rightWins scopeArg =
     (let scope = (case scopeArg of None \<Rightarrow> None | Some given \<Rightarrow> given)
      in IRaceWith left right leftWins rightWins scope)"

section \<open>Scopes and their finalizers\<close>

text \<open>
  The module \<^verbatim>\<open>../Scope\<close> is imported by \<^verbatim>\<open>scope.ts\<close> and is not among the
  sources verified here.

  Modelled from the spec: the Scope of sections 3 and 4.2, which is missing from the
  sources. A scope holds what was registered in it, oldest first, and a closed flag. A
  registration is a finalizer (named by a number, so that a run can be recorded) or a
  child scope, which the specification has \<^verbatim>\<open>close\<close> close recursively. The member
  fibers, the parent back-reference and the stored exit cause of the specification are
  left out: \<^verbatim>\<open>close\<close> reads none of them when it runs finalizers.
\<close>

datatype scope = Scope (registrations: "registration list") (closed: bool)
  and registration = Finalizer nat | ChildScope scope

text \<open>
  Modelled from the spec: \<^verbatim>\<open>close(scope, cause)\<close> "runs registered finalizers in
  reverse order, recursively closes child scopes (their finalizers fully drain before the
  parent's remaining finalizers run), then marks closed", and "closing is idempotent".
  Running a finalizer appends its number to the log that is threaded through. \<open>drain\<close>
  releases the later registrations before the earlier ones.
\<close>

fun close :: "scope \<Rightarrow> nat list \<Rightarrow> scope \<times> nat list"
  and drain :: "registration list \<Rightarrow> nat list \<Rightarrow> registration list \<times> nat list"
  and release :: "registration \<Rightarrow> nat list \<Rightarrow> registration \<times> nat list" where
  "close (Scope rs c) log =
     (if c then (Scope rs c, log)
      else (case drain rs log of (rs', log') \<Rightarrow> (Scope rs' True, log')))"
| "drain [] log = ([], log)"
| "drain (r # rs) log =
     (case drain rs log of (rs', log1) \<Rightarrow>
        (case release r log1 of (r', log2) \<Rightarrow> (r' # rs', log2)))"
| "release (Finalizer f) log = (Finalizer f, log @ [f])"
| "release (ChildScope c) log = (case close c log of (c', log') \<Rightarrow> (ChildScope c', log'))"

text \<open>
  Modelled from the spec: \<^verbatim>\<open>addFinalizer(scope, finalizer)\<close> "registers a cleanup
  action. If scope is already closed, the finalizer executes immediately and exactly once
  instead of being queued".
\<close>

fun addFinalizer :: "scope \<Rightarrow> nat \<Rightarrow> nat list \<Rightarrow> scope \<times> nat list" where
  "addFinalizer (Scope rs c) f log =
     (if c then (Scope rs c, log @ [f]) else (Scope (rs @ [Finalizer f]) c, log))"

text \<open>The finalizers a close of the scope runs, in the order it runs them.\<close>

definition executed :: "scope \<Rightarrow> nat list" where
  "executed s = snd (close s [])"

text \<open>
  The finalizers that are registered and have not run: those of the scope and of its
  descendants, a closed scope having none left.
\<close>

fun pending :: "scope \<Rightarrow> nat list"
  and pendingIn :: "registration list \<Rightarrow> nat list"
  and pendingOf :: "registration \<Rightarrow> nat list" where
  "pending (Scope rs c) = (if c then [] else pendingIn rs)"
| "pendingIn [] = []"
| "pendingIn (r # rs) = pendingOf r @ pendingIn rs"
| "pendingOf (Finalizer f) = [f]"
| "pendingOf (ChildScope c) = pending c"

section \<open>Causes\<close>

text \<open>
  Modelled from the spec: the Cause of sections 3 and 4.1, which is missing from the
  sources: \<^verbatim>\<open>Fail(error)\<close>, \<^verbatim>\<open>Die(defect)\<close>, \<^verbatim>\<open>Interrupt(fiberId)\<close>,
  \<^verbatim>\<open>Then(Cause, Cause)\<close> and \<^verbatim>\<open>Both(Cause, Cause)\<close>, with
  \<^verbatim>\<open>combineSequential(c1, c2) = Then(c1, c2)\<close> and
  \<^verbatim>\<open>combineParallel(c1, c2) = Both(c1, c2)\<close>.
\<close>

datatype ('e, 'd, 'f) cause =
    Fail 'e
  | Die 'd
  | Interrupt 'f
  | Then "('e, 'd, 'f) cause" "('e, 'd, 'f) cause"
  | Both "('e, 'd, 'f) cause" "('e, 'd, 'f) cause"

definition combineSequential ::
  "('e, 'd, 'f) cause \<Rightarrow> ('e, 'd, 'f) cause \<Rightarrow> ('e, 'd, 'f) cause" where
  "combineSequential c1 c2 = Then c1 c2"

definition combineParallel ::
  "('e, 'd, 'f) cause \<Rightarrow> ('e, 'd, 'f) cause \<Rightarrow> ('e, 'd, 'f) cause" where
  "combineParallel c1 c2 = Both c1 c2"

text \<open>
  Modelled from the spec: "flattening any Cause to an ordered list of leaves". The leaves
  are the \<open>Fail\<close>, \<open>Die\<close> and \<open>Interrupt\<close> nodes, read from left to right.
\<close>

fun flatten :: "('e, 'd, 'f) cause \<Rightarrow> ('e, 'd, 'f) cause list" where
  "flatten (Then l r) = flatten l @ flatten r"
| "flatten (Both l r) = flatten l @ flatten r"
| "flatten c = [c]"

text \<open>How often the leaf \<open>l\<close> stands in a cause, counted on the tree itself.\<close>

fun occurrences :: "('e, 'd, 'f) cause \<Rightarrow> ('e, 'd, 'f) cause \<Rightarrow> nat" where
  "occurrences l (Then a b) = occurrences l a + occurrences l b"
| "occurrences l (Both a b) = occurrences l a + occurrences l b"
| "occurrences l c = (if l = c then 1 else 0)"

fun isLeaf :: "('e, 'd, 'f) cause \<Rightarrow> bool" where
  "isLeaf (Then a b) = False"
| "isLeaf (Both a b) = False"
| "isLeaf c = True"

section \<open>The interpreter of forks and races\<close>

text \<open>
  The interpreter that runs the nodes built by \<^verbatim>\<open>scope.ts\<close> is not among the sources
  verified here.

  Modelled from the spec: the values, exits, fibers and scopes of section 3, as far as the
  evaluation of \<^verbatim>\<open>Pure\<close>, \<^verbatim>\<open>Fork\<close>, \<^verbatim>\<open>GetForkScope\<close> and \<^verbatim>\<open>RaceWith\<close> nodes
  reads and writes them. An Exit is \<^verbatim>\<open>Success(value)\<close> or \<^verbatim>\<open>Failure(Cause)\<close>. A value a
  task can produce is a unit, a number, or the handle of a fiber (what a fork returns).
  Scopes and fibers are named by numbers; a task is a description over these.
\<close>

datatype taskValue = UnitValue | NumberValue int | FiberValue nat

datatype exit = Success taskValue | Failure "(taskValue, taskValue, nat) cause"

type_synonym task = "(nat, exit, nat, taskValue) effect"

text \<open>
  Modelled from the spec: "Fiber: id, current state (Suspended | Running | Done), owning
  Scope, and once Done, an Exit value", a fiber being "a schedulable unit running a Task".
  \<open>fiberTask\<close> is what is left of the task; \<open>owner\<close> is the scope the fiber is registered
  in; \<open>lifetime\<close> is the fiber's "own lifetime Scope", the ambient fork scope of what it
  runs; \<open>interruptRequested\<close> is the flag that \<^verbatim>\<open>interrupt\<close> sets ("it flags the fiber");
  \<open>racing\<close> holds the two children a fiber waits for "inside raceWith", and \<open>racer\<close> the
  fiber that waits for this one.
\<close>

datatype fiberState = Suspended | Running | Done

record fiber =
  status :: fiberState
  fiberTask :: task
  owner :: nat
  lifetime :: nat
  fiberExit :: "exit option"
  interruptRequested :: bool
  racing :: "(nat \<times> nat) option"
  racer :: "nat option"

text \<open>
  Modelled from the spec: "Scope: tree node: parent link, .., set of member fiber ids". The
  finalizers and the closed flag of a scope are those of the section on scopes above; the
  closing of scopes, and the interruption of descendants that it brings, is not part of
  this model of the four nodes.
\<close>

record scopeEntry =
  parent :: "nat option"
  members :: "nat set"

record runtime =
  fibers :: "nat \<rightharpoonup> fiber"
  scopes :: "nat \<rightharpoonup> scopeEntry"
  nextFiber :: nat
  nextScope :: nat

text \<open>
  Modelled from the spec: \<^verbatim>\<open>child(parent, explicitTarget?)\<close> "creates a new Scope".
\<close>

definition childScope :: "runtime \<Rightarrow> nat \<Rightarrow> nat \<times> runtime" where
  "childScope rt parentScope =
     (nextScope rt,
      rt\<lparr>scopes := (scopes rt)(nextScope rt \<mapsto> \<lparr>parent = Some parentScope, members = {}\<rparr>),
         nextScope := Suc (nextScope rt)\<rparr>)"

text \<open>A fiber joins, and leaves, the member set of a scope (a scope that is not there has none).\<close>

definition register :: "runtime \<Rightarrow> nat \<Rightarrow> nat \<Rightarrow> runtime" where
  "register rt target child =
     (case scopes rt target of
        None \<Rightarrow> rt
      | Some entry \<Rightarrow>
          rt\<lparr>scopes := (scopes rt)(target \<mapsto> entry\<lparr>members := insert child (members entry)\<rparr>)\<rparr>)"

definition unregister :: "runtime \<Rightarrow> nat \<Rightarrow> nat \<Rightarrow> runtime" where
  "unregister rt target child =
     (case scopes rt target of
        None \<Rightarrow> rt
      | Some entry \<Rightarrow>
          rt\<lparr>scopes := (scopes rt)(target \<mapsto> entry\<lparr>members := members entry - {child}\<rparr>)\<rparr>)"

text \<open>
  Modelled from the spec: "a Fiber is created by a fork operation" and is "registered in
  exactly one scope"; it starts \<open>Suspended\<close> ("transitions Suspended to Running when
  scheduled") with the task as it was given, and has a lifetime scope of its own below
  the scope it is registered in.
\<close>

definition forkFiber :: "runtime \<Rightarrow> nat \<Rightarrow> task \<Rightarrow> nat option \<Rightarrow> nat \<times> runtime" where
  "forkFiber rt target t waiting =
     (case childScope rt target of
        (own, rt1) \<Rightarrow>
          (let child = nextFiber rt1;
               rt2 = register rt1 target child
           in (child,
               rt2\<lparr>fibers := (fibers rt2)(child \<mapsto>
                      \<lparr>status = Suspended, fiberTask = t, owner = target, lifetime = own,
                       fiberExit = None, interruptRequested = False, racing = None,
                       racer = waiting\<rparr>),
                    nextFiber := Suc child\<rparr>)))"

text \<open>
  Modelled from the spec (4.5): "Whichever branch reaches Done first invokes the matching
  continuation with (thatExit, handleOfTheOtherStillRunningFiber). The primitive itself
  does not interrupt the loser", and "the composite task's Exit is whatever the invoked
  continuation produces": the fiber \<open>p\<close> that waits in the race goes on with the task the
  continuation returns, and waits no more, so that the branch that ends second finds no
  race to decide.
\<close>

definition resolveRace :: "runtime \<Rightarrow> nat \<Rightarrow> nat \<Rightarrow> exit \<Rightarrow> runtime" where
  "resolveRace rt p q e =
     (case fibers rt p of
        None \<Rightarrow> rt
      | Some fp \<Rightarrow>
          if status fp = Done then rt
          else
            (case (racing fp, fiberTask fp) of
               (Some (a, b), IRaceWith left right leftWins rightWins sel) \<Rightarrow>
                 if q = a
                 then rt\<lparr>fibers := (fibers rt)(p \<mapsto> fp\<lparr>fiberTask := leftWins e b, racing := None\<rparr>)\<rparr>
                 else if q = b
                 then rt\<lparr>fibers := (fibers rt)(p \<mapsto> fp\<lparr>fiberTask := rightWins e a, racing := None\<rparr>)\<rparr>
                 else rt
             | _ \<Rightarrow> rt))"

text \<open>
  Modelled from the spec (3): a fiber "terminates in Done exactly once, at which point it
  is removed from its Scope's member set"; a fiber that waits for it in a race is resumed.
\<close>

definition finish :: "runtime \<Rightarrow> nat \<Rightarrow> exit \<Rightarrow> runtime" where
  "finish rt q e =
     (case fibers rt q of
        None \<Rightarrow> rt
      | Some fq \<Rightarrow>
          (let rt1 = unregister rt (owner fq) q;
               rt2 = rt1\<lparr>fibers := (fibers rt1)(q \<mapsto> fq\<lparr>status := Done, fiberExit := Some e\<rparr>)\<rparr>
           in case racer fq of None \<Rightarrow> rt2 | Some p \<Rightarrow> resolveRace rt2 p q e))"

text \<open>
  Modelled from the spec (4.4): \<^verbatim>\<open>interrupt\<close> "asynchronously requests termination ..
  it does not forcibly stop code mid-step, it flags the fiber".
\<close>

definition interrupt :: "runtime \<Rightarrow> nat \<Rightarrow> runtime" where
  "interrupt rt q =
     (case fibers rt q of
        None \<Rightarrow> rt
      | Some fq \<Rightarrow>
          if status fq = Done then rt
          else rt\<lparr>fibers := (fibers rt)(q \<mapsto> fq\<lparr>interruptRequested := True\<rparr>)\<rparr>)"

text \<open>
  Modelled from the spec (4.3, 4.4, 4.5, 5): "the interpreter advances one Task node at a
  time". \<open>advance rt p\<close> lets the fiber \<open>p\<close> run one node.
  \<^item> A fiber that is \<open>Done\<close> stays as it is ("no transition leaves Done"); a flagged fiber
    ends with an \<open>Interrupt\<close> cause; a fiber that waits in a race has nothing to run.
  \<^item> \<^verbatim>\<open>Pure(value)\<close> ends the fiber with \<open>Success\<close>.
  \<^item> \<^verbatim>\<open>Fork(task, selector)\<close>: "the resulting child Fiber is registered under an
    explicitly supplied target Scope, if selector names one; .. otherwise, the ambient
    ancestor's own lifetime Scope"; the fork returns "a handle immediately, without
    waiting for the child to start running", and "never suspends the caller".
  \<^item> \<^verbatim>\<open>GetForkScope(continuation)\<close> "exposes the ambient Scope to callers without
    forking".
  \<^item> \<^verbatim>\<open>RaceWith\<close> "forks both left and right as children of a scope (caller-supplied
    or fresh ephemeral)"; the fiber then waits "inside raceWith .. for a child to
    finish" (a suspension point).
\<close>

definition advance :: "runtime \<Rightarrow> nat \<Rightarrow> runtime" where
  "advance rt p =
     (case fibers rt p of
        None \<Rightarrow> rt
      | Some fp \<Rightarrow>
          if status fp = Done then rt
          else if interruptRequested fp then finish rt p (Failure (Interrupt p))
          else if racing fp \<noteq> None then rt
          else
            (case fiberTask fp of
               ISucceed v \<Rightarrow> finish rt p (Success v)
             | IFork t sel \<Rightarrow>
                 (case forkFiber rt (case sel of Some s \<Rightarrow> s | None \<Rightarrow> lifetime fp) t None of
                    (child, rt1) \<Rightarrow>
                      rt1\<lparr>fibers := (fibers rt1)(p \<mapsto>
                             fp\<lparr>status := Running, fiberTask := ISucceed (FiberValue child)\<rparr>)\<rparr>)
             | IGetForkScope f \<Rightarrow>
                 rt\<lparr>fibers := (fibers rt)(p \<mapsto>
                        fp\<lparr>status := Running, fiberTask := f (lifetime fp)\<rparr>)\<rparr>
             | IRaceWith left right leftWins rightWins sel \<Rightarrow>
                 (case (case sel of Some s \<Rightarrow> (s, rt) | None \<Rightarrow> childScope rt (lifetime fp)) of
                    (target, rt0) \<Rightarrow>
                      (case forkFiber rt0 target left (Some p) of
                         (a, rt1) \<Rightarrow>
                           (case forkFiber rt1 target right (Some p) of
                              (b, rt2) \<Rightarrow>
                                rt2\<lparr>fibers := (fibers rt2)(p \<mapsto>
                                       fp\<lparr>status := Suspended, racing := Some (a, b)\<rparr>)\<rparr>)))))"

text \<open>A schedule is the list of the fibers that are stepped, in order.\<close>

definition run :: "runtime \<Rightarrow> nat list \<Rightarrow> runtime" where
  "run rt schedule = foldl advance rt schedule"

text \<open>A fiber that \<open>advance\<close> can advance by a node.\<close>

definition runnable :: "fiber \<Rightarrow> bool" where
  "runnable f \<longleftrightarrow> status f \<noteq> Done \<and> \<not> interruptRequested f \<and> racing f = None"

subsection \<open>Runtimes for examples\<close>

text \<open>
  For the examples: the fiber 0 that runs a task in the global scope 0 with the lifetime
  scope 1; a second, suspended fiber; and a race of two tasks in progress, its two
  branches registered in the scope 2, with continuations that return the handle of the
  loser.
\<close>

definition rootFiber :: "task \<Rightarrow> fiber" where
  "rootFiber t =
     \<lparr>status = Running, fiberTask = t, owner = 0, lifetime = 1, fiberExit = None,
      interruptRequested = False, racing = None, racer = None\<rparr>"

definition waitingFiber :: "task \<Rightarrow> nat \<Rightarrow> nat \<Rightarrow> nat option \<Rightarrow> fiber" where
  "waitingFiber t target own waiting =
     \<lparr>status = Suspended, fiberTask = t, owner = target, lifetime = own, fiberExit = None,
      interruptRequested = False, racing = None, racer = waiting\<rparr>"

definition startRuntime :: "task \<Rightarrow> runtime" where
  "startRuntime t =
     \<lparr>fibers = [0 \<mapsto> rootFiber t],
      scopes = [0 \<mapsto> \<lparr>parent = None, members = {0}\<rparr>, 1 \<mapsto> \<lparr>parent = Some 0, members = {}\<rparr>],
      nextFiber = 1, nextScope = 2\<rparr>"

definition twoFibers :: "task \<Rightarrow> task \<Rightarrow> runtime" where
  "twoFibers t0 t1 =
     \<lparr>fibers = [0 \<mapsto> rootFiber t0, 1 \<mapsto> waitingFiber t1 1 2 None],
      scopes = [0 \<mapsto> \<lparr>parent = None, members = {0}\<rparr>, 1 \<mapsto> \<lparr>parent = Some 0, members = {1}\<rparr>,
                2 \<mapsto> \<lparr>parent = Some 1, members = {}\<rparr>],
      nextFiber = 2, nextScope = 3\<rparr>"

definition handleOfLoser :: "exit \<Rightarrow> nat \<Rightarrow> task" where
  "handleOfLoser e loser = ISucceed (FiberValue loser)"

definition raceOfTwo :: task where
  "raceOfTwo =
     raceWith (ISucceed (NumberValue 1)) (ISucceed (NumberValue 2)) handleOfLoser handleOfLoser None"

definition racingRuntime :: runtime where
  "racingRuntime =
     \<lparr>fibers = [0 \<mapsto> (rootFiber raceOfTwo)\<lparr>status := Suspended, racing := Some (1, 2)\<rparr>,
                1 \<mapsto> waitingFiber (ISucceed (NumberValue 1)) 2 3 (Some 0),
                2 \<mapsto> waitingFiber (ISucceed (NumberValue 2)) 2 4 (Some 0)],
      scopes = [0 \<mapsto> \<lparr>parent = None, members = {0}\<rparr>, 1 \<mapsto> \<lparr>parent = Some 0, members = {}\<rparr>,
                2 \<mapsto> \<lparr>parent = Some 1, members = {1, 2}\<rparr>,
                3 \<mapsto> \<lparr>parent = Some 2, members = {}\<rparr>, 4 \<mapsto> \<lparr>parent = Some 2, members = {}\<rparr>],
      nextFiber = 3, nextScope = 5\<rparr>"

section \<open>Password hashing (system/test/crypto/index.ts)\<close>

subsection \<open>Buffers of the host\<close>

text \<open>
  A \<^verbatim>\<open>Buffer\<close> is a list of bytes. The functions below are those of Node that
  \<^verbatim>\<open>makeCrypto\<close> calls, each with the behaviour its documentation gives it on the
  arguments the code can pass; a \<^verbatim>\<open>RangeError\<close> that Node throws is a result.
\<close>

type_synonym byte = "8 word"

type_synonym buffer = "byte list"

datatype nodeError = RangeError

definition alloc :: "nat \<Rightarrow> buffer" where
  "alloc size' = replicate size' 0"

text \<open>The four bytes of an unsigned 32-bit value, the most significant first.\<close>

definition uint32BE :: "int \<Rightarrow> buffer" where
  "uint32BE v =
     [word_of_int (v div 16777216), word_of_int (v div 65536), word_of_int (v div 256),
      word_of_int v]"

text \<open>
  \<^verbatim>\<open>buf.writeUInt32BE(value, offset)\<close> throws when the value is not in the range of
  32 bits or when the four bytes do not fit at the offset; otherwise the four bytes at the
  offset are replaced.
\<close>

definition writeUInt32BE :: "buffer \<Rightarrow> int \<Rightarrow> nat \<Rightarrow> nodeError + buffer" where
  "writeUInt32BE buf v offset =
     (if v < 0 \<or> v > 4294967295 then Inl RangeError
      else if offset + 4 > length buf then Inl RangeError
      else Inr (take offset buf @ uint32BE v @ drop (offset + 4) buf))"

definition readUInt32BE :: "buffer \<Rightarrow> nat \<Rightarrow> nodeError + int" where
  "readUInt32BE buf offset =
     (if offset + 4 > length buf then Inl RangeError
      else Inr (uint (buf ! offset) * 16777216 + uint (buf ! (offset + 1)) * 65536 +
                uint (buf ! (offset + 2)) * 256 + uint (buf ! (offset + 3))))"

text \<open>
  \<^verbatim>\<open>source.copy(target, targetStart)\<close>: nothing is copied when the start is at or
  behind the end of the target; otherwise as many bytes of the source as fit. The result
  is the target after the call.
\<close>

definition copy :: "buffer \<Rightarrow> buffer \<Rightarrow> nat \<Rightarrow> buffer" where
  "copy source target targetStart =
     (if targetStart \<ge> length target then target
      else
        (let n = min (length source) (length target - targetStart)
         in take targetStart target @ take n source @ drop (targetStart + n) target))"

text \<open>
  \<^verbatim>\<open>buf.slice(start, end)\<close> with positions that are not negative; positions behind the
  end are cut to the length.
\<close>

definition bufferSlice :: "buffer \<Rightarrow> int \<Rightarrow> int \<Rightarrow> buffer" where
  "bufferSlice buf start stop = take (nat stop - nat start) (drop (nat start) buf)"

text \<open>
  \<^verbatim>\<open>buf.toString("binary", start)\<close>: one code unit for each byte from the position on,
  the code unit being the value of the byte. A string in this encoding is the list of its
  code units.
\<close>

definition toBinaryString :: "buffer \<Rightarrow> int \<Rightarrow> nat list" where
  "toBinaryString buf start = map unat (drop (nat start) buf)"

text \<open>
  \<^verbatim>\<open>buf.toString("hex")\<close> writes two lower-case digits for each byte.
  \<^verbatim>\<open>Buffer.from(text, "hex")\<close> reads pairs of digits of either case and stops at the
  first pair that is not two digits, or when less than two characters are left.
\<close>

definition hexDigit :: "nat \<Rightarrow> char" where
  "hexDigit n = ''0123456789abcdef'' ! n"

definition toHexString :: "buffer \<Rightarrow> string" where
  "toHexString buf = concat (map (\<lambda>b. [hexDigit (unat b div 16), hexDigit (unat b mod 16)]) buf)"

definition hexValue :: "char \<Rightarrow> nat option" where
  "hexValue c =
     map_of (zip ''0123456789abcdefABCDEF''
       [0, 1, 2, 3, 4, 5, 6, 7, 8, 9, 10, 11, 12, 13, 14, 15, 10, 11, 12, 13, 14, 15]) c"

fun fromHexString :: "string \<Rightarrow> buffer" where
  "fromHexString (h # l # cs) =
     (case (hexValue h, hexValue l) of
        (Some x, Some y) \<Rightarrow> word_of_nat (16 * x + y) # fromHexString cs
      | _ \<Rightarrow> [])"
| "fromHexString cs = []"

subsection \<open>The configuration and the outcomes\<close>

record PBKDF2Config =
  hashBytes :: int
  saltBytes :: int
  iterations :: int
  digest :: string

definition defaultConfig :: PBKDF2Config where
  "defaultConfig = \<lparr>hashBytes = 32, saltBytes = 16, iterations = 872791, digest = ''sha512''\<rparr>"

text \<open>
  How an effect of \<^verbatim>\<open>makeCrypto\<close> ends without a value: \<^verbatim>\<open>T.fail(new
  InvalidPassword())\<close>, \<^verbatim>\<open>T.die(err)\<close> with the error of a callback (\<open>Died\<close>), or an exception
  that a buffer operation throws.
\<close>

datatype 'e cryptoFailure = InvalidPassword | Died 'e | Thrown nodeError

subsection \<open>hashPassword and verifyPassword\<close>

text \<open>
  \<^verbatim>\<open>crypto.randomBytes\<close> and \<^verbatim>\<open>crypto.pbkdf2\<close> hand an error or a buffer to their
  callback. They are parameters: total functions from the arguments of the call to what
  the callback receives (\<open>Inl\<close> the error). The result of each effect is the argument of
  the one call of \<^verbatim>\<open>cb\<close>; where a buffer operation throws before that call, the
  result is \<open>Thrown\<close>.
\<close>

definition hashPassword ::
  "(int \<Rightarrow> 'e + buffer) \<Rightarrow> (string \<Rightarrow> buffer \<Rightarrow> int \<Rightarrow> int \<Rightarrow> string \<Rightarrow> 'e + buffer) \<Rightarrow>
   PBKDF2Config \<Rightarrow> string \<Rightarrow> 'e cryptoFailure + string" where
  "hashPassword randomBytes pbkdf2 config password =
     (case randomBytes (saltBytes config) of
        Inl err \<Rightarrow> Inl (Died err)
      | Inr salt \<Rightarrow>
          (case pbkdf2 password salt (iterations config) (hashBytes config) (digest config) of
             Inl err \<Rightarrow> Inl (Died err)
           | Inr hash \<Rightarrow>
               (let combined = alloc (length hash + length salt + 8) in
                case writeUInt32BE combined (int (length salt)) 0 of
                  Inl thrown \<Rightarrow> Inl (Thrown thrown)
                | Inr combined1 \<Rightarrow>
                    (case writeUInt32BE combined1 (iterations config) 4 of
                       Inl thrown \<Rightarrow> Inl (Thrown thrown)
                     | Inr combined2 \<Rightarrow>
                         (let combined3 = copy salt combined2 8;
                              combined4 = copy hash combined3 (length salt + 8)
                          in Inr (toHexString combined4))))))"

definition verifyPassword ::
  "(string \<Rightarrow> buffer \<Rightarrow> int \<Rightarrow> int \<Rightarrow> string \<Rightarrow> 'e + buffer) \<Rightarrow>
   PBKDF2Config \<Rightarrow> string \<Rightarrow> string \<Rightarrow> 'e cryptoFailure + unit" where
  "verifyPassword pbkdf2 config password hashText =
     (let combined = fromHexString hashText in
      case readUInt32BE combined 0 of
        Inl thrown \<Rightarrow> Inl (Thrown thrown)
      | Inr saltBytes' \<Rightarrow>
          (let hashBytes' = int (length combined) - saltBytes' - 8 in
           case readUInt32BE combined 4 of
             Inl thrown \<Rightarrow> Inl (Thrown thrown)
           | Inr iterations' \<Rightarrow>
               (let salt = bufferSlice combined 8 (saltBytes' + 8);
                    hash = toBinaryString combined (saltBytes' + 8)
                in case pbkdf2 password salt iterations' hashBytes' (digest config) of
                     Inl err \<Rightarrow> Inl InvalidPassword
                   | Inr verify \<Rightarrow>
                       if toBinaryString verify 0 = hash then Inr ()
                       else Inl InvalidPassword)))"

subsection \<open>A host for examples\<close>

text \<open>
  For the examples: a source of salt that always hands out the bytes 1, 2, .. and a key
  derivation that repeats one byte, the length of the password plus the length of the
  salt, for the length asked for (an error for a negative length or for less than one
  iteration). They stand for \<^verbatim>\<open>randomBytes\<close> and \<^verbatim>\<open>pbkdf2\<close> where a theorem is
  tried on a concrete input; the theorems themselves hold for every such function.
\<close>

definition countingBytes :: "int \<Rightarrow> unit + buffer" where
  "countingBytes n = (if n < 0 then Inl () else Inr (map word_of_nat [1..<Suc (nat n)]))"

definition repeatKey :: "string \<Rightarrow> buffer \<Rightarrow> int \<Rightarrow> int \<Rightarrow> string \<Rightarrow> unit + buffer" where
  "repeatKey password salt iterations' keylen digest' =
     (if keylen < 0 \<or> iterations' < 1 then Inl ()
      else Inr (replicate (nat keylen) (word_of_nat (length password + length salt))))"

definition exampleConfig :: PBKDF2Config where
  "exampleConfig = \<lparr>hashBytes = 3, saltBytes = 2, iterations = 258, digest = ''sha512''\<rparr>"

section \<open>Cron expressions (Cron.ts)\<close>

subsection \<open>Strings, numbers and sets of the host language\<close>

text \<open>
  A JavaScript string is a list of characters. \<^verbatim>\<open>indexOf\<close> gives the position of the
  first occurrence of a character, or \<open>-1\<close>. \<^verbatim>\<open>slice\<close> is only called with positions
  that are not negative, where it is \<open>take\<close> and \<open>drop\<close>.
\<close>

fun indexOf :: "string \<Rightarrow> char \<Rightarrow> int" where
  "indexOf [] c = -1"
| "indexOf (x # xs) c =
     (if x = c then 0 else (let i = indexOf xs c in if i = -1 then -1 else i + 1))"

definition slice :: "string \<Rightarrow> int \<Rightarrow> int \<Rightarrow> string" where
  "slice s start stop = take (nat stop - nat start) (drop (nat start) s)"

definition sliceFrom :: "string \<Rightarrow> int \<Rightarrow> string" where
  "sliceFrom s start = drop (nat start) s"

text \<open>
  \<^verbatim>\<open>s.split(sep)\<close> for a separator of one character: the pieces between the
  separators, so one piece more than there are separators; the empty string gives one
  empty piece.
\<close>

fun splitFrom :: "char \<Rightarrow> string \<Rightarrow> string \<Rightarrow> string list" where
  "splitFrom sep piece [] = [piece]"
| "splitFrom sep piece (c # cs) =
     (if c = sep then piece # splitFrom sep [] cs else splitFrom sep (piece @ [c]) cs)"

definition splitString :: "string \<Rightarrow> char \<Rightarrow> string list" where
  "splitString s sep = splitFrom sep [] s"

definition isNonEmpty :: "string \<Rightarrow> bool" where
  "isNonEmpty s = (length s > 0)"

text \<open>
  The code reads numbers with \<^verbatim>\<open>Number(..)\<close> and asks \<^verbatim>\<open>Number.isInteger\<close> of each
  before any other use. A number is therefore \<open>Some k\<close> for the integer \<open>k\<close>, and \<open>None\<close>
  for every value that \<^verbatim>\<open>Number.isInteger\<close> refuses (\<^verbatim>\<open>NaN\<close>, the infinities, a
  fraction). Every number that passes the checks of \<^verbatim>\<open>parseSegment\<close> lies between
  the bounds of a segment, where the arithmetic of doubles is exact. \<^verbatim>\<open>Number\<close> itself
  and \<^verbatim>\<open>toLocaleLowerCase\<close> belong to the host, not to the repository: they are
  parameters of the functions that call them.
\<close>

type_synonym jsnumber = "int option"

text \<open>
  A \<^verbatim>\<open>Set<number>\<close> keeps its elements in the order of insertion: a list without
  repetition. \<^verbatim>\<open>add\<close> appends a new element, \<^verbatim>\<open>size\<close> is the length, and
  \<^verbatim>\<open>has\<close> is membership. \<^verbatim>\<open>new Set(xs)\<close> adds the elements of \<open>xs\<close> in order.
\<close>

definition setAdd :: "int list \<Rightarrow> int \<Rightarrow> int list" where
  "setAdd values i = (if i \<in> set values then values else values @ [i])"

definition newSet :: "int list \<Rightarrow> int list" where
  "newSet xs = foldl setAdd [] xs"

subsection \<open>The data of Cron.ts\<close>

record 'tz Cron =
  tz :: "'tz option"
  minutes :: "int list"
  hours :: "int list"
  days :: "int list"
  months :: "int list"
  weekdays :: "int list"

text \<open>
  The parts of a date that \<^verbatim>\<open>match\<close> reads from \<^verbatim>\<open>dateTime.toParts\<close>. The module
  \<^verbatim>\<open>./internal/dateTime.js\<close> is not among the sources verified here:
  \<^verbatim>\<open>unsafeMakeZoned\<close> (which throws \<^verbatim>\<open>IllegalArgumentException\<close> on an invalid
  input: \<open>None\<close>), \<^verbatim>\<open>setZone\<close> and \<^verbatim>\<open>toParts\<close> are parameters of \<open>match\<close>. The
  fields \<^verbatim>\<open>minutes\<close>, \<^verbatim>\<open>hours\<close>, \<^verbatim>\<open>day\<close>, \<^verbatim>\<open>month\<close> and \<^verbatim>\<open>weekDay\<close> of
  the parts carry the prefix \<open>part\<close>, \<open>minutes\<close> and \<open>hours\<close> being fields of \<open>Cron\<close>.
\<close>

record Parts =
  partMinutes :: int
  partHours :: int
  partDay :: int
  partMonth :: int
  partWeekDay :: int

datatype matchError = IllegalArgumentException

text \<open>
  A \<^verbatim>\<open>ParseError\<close> carries a message and the input. The messages are the seven texts
  of \<^verbatim>\<open>parse\<close> and \<^verbatim>\<open>parseSegment\<close>, in the order of the source:
  "Invalid number of segments in cron expression",
  "Expected step value to be a positive integer",
  "Expected step value to be greater than 0",
  "Expected step value to be less than (max)",
  "Expected a positive integer",
  "Expected a value between (min) and (max)", "Invalid value range".
\<close>

datatype parseMessage =
    InvalidNumberOfSegments
  | StepNotInteger
  | StepNotGreaterThanZero
  | StepNotLessThanMax
  | ExpectedPositiveInteger
  | ExpectedValueBetween
  | InvalidValueRange

datatype ParseError = ParseError (message: parseMessage) (input: string)

text \<open>The fields \<^verbatim>\<open>min\<close> and \<^verbatim>\<open>max\<close> are \<open>minValue\<close> and \<open>maxValue\<close> here.\<close>

record SegmentOptions =
  segment :: string
  minValue :: int
  maxValue :: int
  aliases :: "(string \<times> int) list option"

definition minuteOptions :: SegmentOptions where
  "minuteOptions = \<lparr>segment = ''minute'', minValue = 0, maxValue = 59, aliases = None\<rparr>"

definition hourOptions :: SegmentOptions where
  "hourOptions = \<lparr>segment = ''hour'', minValue = 0, maxValue = 23, aliases = None\<rparr>"

definition dayOptions :: SegmentOptions where
  "dayOptions = \<lparr>segment = ''day'', minValue = 1, maxValue = 31, aliases = None\<rparr>"

definition monthOptions :: SegmentOptions where
  "monthOptions = \<lparr>segment = ''month'', minValue = 1, maxValue = 12,
     aliases = Some [(''jan'', 1), (''feb'', 2), (''mar'', 3), (''apr'', 4), (''may'', 5),
       (''jun'', 6), (''jul'', 7), (''aug'', 8), (''sep'', 9), (''oct'', 10), (''nov'', 11),
       (''dec'', 12)]\<rparr>"

definition weekdayOptions :: SegmentOptions where
  "weekdayOptions = \<lparr>segment = ''weekday'', minValue = 0, maxValue = 6,
     aliases = Some [(''sun'', 0), (''mon'', 1), (''tue'', 2), (''wed'', 3), (''thu'', 4),
       (''fri'', 5), (''sat'', 6)]\<rparr>"

subsection \<open>make\<close>

definition make ::
  "int list \<Rightarrow> int list \<Rightarrow> int list \<Rightarrow> int list \<Rightarrow> int list \<Rightarrow> 'tz option \<Rightarrow> 'tz Cron" where
  "make minutes' hours' days' months' weekdays' tz' =
     \<lparr>tz = tz',
      minutes = newSet (sort minutes'),
      hours = newSet (sort hours'),
      days = newSet (sort days'),
      months = newSet (sort months'),
      weekdays = newSet (sort weekdays')\<rparr>"

subsection \<open>parseSegment and its helpers\<close>

text \<open>
  \<^verbatim>\<open>aliases?.[field.toLocaleLowerCase()] ?? Number(field)\<close>: the alias when the table
  has one for the field in lower case, the number read from the field otherwise. (A key of
  \<^verbatim>\<open>Object.prototype\<close>, such as \<^verbatim>\<open>constructor\<close>, finds a value that is no number in
  the source; \<^verbatim>\<open>Number.isInteger\<close> refuses it as it refuses the \<^verbatim>\<open>NaN\<close> that
  \<^verbatim>\<open>Number\<close> reads from such a field.)
\<close>

definition aliasOrValue ::
  "(string \<Rightarrow> jsnumber) \<Rightarrow> (string \<Rightarrow> string) \<Rightarrow> string \<Rightarrow> (string \<times> int) list option \<Rightarrow> jsnumber" where
  "aliasOrValue Number toLocaleLowerCase field aliases' =
     (case aliases' of
        None \<Rightarrow> Number field
      | Some table \<Rightarrow>
          (case map_of table (toLocaleLowerCase field) of
             Some v \<Rightarrow> Some v
           | None \<Rightarrow> Number field))"

definition splitStep :: "(string \<Rightarrow> jsnumber) \<Rightarrow> string \<Rightarrow> string \<times> jsnumber option" where
  "splitStep Number input' =
     (let seperator = indexOf input' CHR ''/'' in
      if seperator \<noteq> -1
      then (slice input' 0 seperator, Some (Number (sliceFrom input' (seperator + 1))))
      else (input', None))"

definition splitRange ::
  "(string \<Rightarrow> jsnumber) \<Rightarrow> (string \<Rightarrow> string) \<Rightarrow> string \<Rightarrow> (string \<times> int) list option \<Rightarrow>
   jsnumber \<times> jsnumber option" where
  "splitRange Number toLocaleLowerCase input' aliases' =
     (let seperator = indexOf input' CHR ''-'' in
      if seperator \<noteq> -1
      then (aliasOrValue Number toLocaleLowerCase (slice input' 0 seperator) aliases',
            Some (aliasOrValue Number toLocaleLowerCase (sliceFrom input' (seperator + 1)) aliases'))
      else (aliasOrValue Number toLocaleLowerCase input' aliases', None))"

text \<open>
  The loop \<^verbatim>\<open>for (let i = first; i <= last; i += step) values.add(i)\<close>. It runs
  forever when the step is not positive, so it is a partial function: \<open>None\<close> is the loop
  that does not end.
\<close>

partial_function (option) addEvery :: "int \<Rightarrow> int \<Rightarrow> int \<Rightarrow> int list \<Rightarrow> int list option" where
  "addEvery i stop step values =
     (if i \<le> stop then addEvery (i + step) stop step (setAdd values i) else Some values)"

declare addEvery.simps [code]

text \<open>
  The block \<^verbatim>\<open>if (step !== undefined) { .. }\<close>: an error, or the step as the loops use
  it, where \<open>None\<close> is \<^verbatim>\<open>undefined\<close> and \<^verbatim>\<open>step ?? 1\<close> is \<open>stepOrOne\<close>.
\<close>

definition checkStep :: "string \<Rightarrow> SegmentOptions \<Rightarrow> jsnumber option \<Rightarrow> ParseError + int option" where
  "checkStep input' options step =
     (case step of
        None \<Rightarrow> Inr None
      | Some None \<Rightarrow> Inl (ParseError StepNotInteger input')
      | Some (Some k) \<Rightarrow>
          if k < 1 then Inl (ParseError StepNotGreaterThanZero input')
          else if k > maxValue options then Inl (ParseError StepNotLessThanMax input')
          else Inr (Some k))"

definition stepOrOne :: "int option \<Rightarrow> int" where
  "stepOrOne step = (case step of Some k \<Rightarrow> k | None \<Rightarrow> 1)"

text \<open>
  The block \<^verbatim>\<open>if (raw === "*") { .. } else { .. }\<close> of the loop body: an error, or the
  set with the values of the field added.
\<close>

definition addField ::
  "(string \<Rightarrow> jsnumber) \<Rightarrow> (string \<Rightarrow> string) \<Rightarrow> string \<Rightarrow> SegmentOptions \<Rightarrow> string \<Rightarrow>
   int option \<Rightarrow> int list \<Rightarrow> (ParseError + int list) option" where
  "addField Number toLocaleLowerCase input' options raw step values =
     (if raw = ''*''
      then map_option Inr (addEvery (minValue options) (maxValue options) (stepOrOne step) values)
      else
        (case splitRange Number toLocaleLowerCase raw (aliases options) of
           (None, right) \<Rightarrow> Some (Inl (ParseError ExpectedPositiveInteger input'))
         | (Some left, right) \<Rightarrow>
             if left < minValue options \<or> left > maxValue options
             then Some (Inl (ParseError ExpectedValueBetween input'))
             else
               (case right of
                  None \<Rightarrow> Some (Inr (setAdd values left))
                | Some None \<Rightarrow> Some (Inl (ParseError ExpectedPositiveInteger input'))
                | Some (Some right') \<Rightarrow>
                    if right' < minValue options \<or> right' > maxValue options
                    then Some (Inl (ParseError ExpectedValueBetween input'))
                    else if left > right'
                    then Some (Inl (ParseError InvalidValueRange input'))
                    else map_option Inr (addEvery left right' (stepOrOne step) values))))"

text \<open>
  The loop \<^verbatim>\<open>for (const field of fields)\<close> with the set built so far. A \<^verbatim>\<open>return\<close>
  in the body ends the loop with its value.
\<close>

fun parseFields ::
  "(string \<Rightarrow> jsnumber) \<Rightarrow> (string \<Rightarrow> string) \<Rightarrow> string \<Rightarrow> SegmentOptions \<Rightarrow> string list \<Rightarrow>
   int list \<Rightarrow> (ParseError + int list) option" where
  "parseFields Number toLocaleLowerCase input' options [] values = Some (Inr values)"
| "parseFields Number toLocaleLowerCase input' options (field # rest) values =
     (let capacity = maxValue options - minValue options + 1 in
      case splitStep Number field of (raw, step) \<Rightarrow>
        if raw = ''*'' \<and> step = None then Some (Inr [])
        else
          (case checkStep input' options step of
             Inl e \<Rightarrow> Some (Inl e)
           | Inr step' \<Rightarrow>
               (case addField Number toLocaleLowerCase input' options raw step' values of
                  None \<Rightarrow> None
                | Some (Inl e) \<Rightarrow> Some (Inl e)
                | Some (Inr values') \<Rightarrow>
                    if int (length values') \<ge> capacity then Some (Inr [])
                    else parseFields Number toLocaleLowerCase input' options rest values')))"

definition parseSegment ::
  "(string \<Rightarrow> jsnumber) \<Rightarrow> (string \<Rightarrow> string) \<Rightarrow> string \<Rightarrow> SegmentOptions \<Rightarrow>
   (ParseError + int list) option" where
  "parseSegment Number toLocaleLowerCase input' options =
     parseFields Number toLocaleLowerCase input' options (splitString input' CHR '','') []"

subsection \<open>parse\<close>

text \<open>
  The five calls of \<^verbatim>\<open>parseSegment\<close> are the fields of an object literal: all of
  them run, in order, before \<^verbatim>\<open>Either.all\<close> looks for the first \<^verbatim>\<open>Left\<close> among the
  results, in the order of the keys.
\<close>

definition parse ::
  "(string \<Rightarrow> jsnumber) \<Rightarrow> (string \<Rightarrow> string) \<Rightarrow> string \<Rightarrow> 'tz option \<Rightarrow>
   (ParseError + 'tz Cron) option" where
  "parse Number toLocaleLowerCase cron tz' =
     (let segments = filter isNonEmpty (splitString cron CHR '' '') in
      if length segments \<noteq> 5
      then Some (Inl (ParseError InvalidNumberOfSegments cron))
      else
        (case parseSegment Number toLocaleLowerCase (segments ! 0) minuteOptions of
           None \<Rightarrow> None
         | Some minutes' \<Rightarrow>
        (case parseSegment Number toLocaleLowerCase (segments ! 1) hourOptions of
           None \<Rightarrow> None
         | Some hours' \<Rightarrow>
        (case parseSegment Number toLocaleLowerCase (segments ! 2) dayOptions of
           None \<Rightarrow> None
         | Some days' \<Rightarrow>
        (case parseSegment Number toLocaleLowerCase (segments ! 3) monthOptions of
           None \<Rightarrow> None
         | Some months' \<Rightarrow>
        (case parseSegment Number toLocaleLowerCase (segments ! 4) weekdayOptions of
           None \<Rightarrow> None
         | Some weekdays' \<Rightarrow>
             Some
               (case minutes' of Inl e \<Rightarrow> Inl e | Inr ms \<Rightarrow>
                (case hours' of Inl e \<Rightarrow> Inl e | Inr hs \<Rightarrow>
                 (case days' of Inl e \<Rightarrow> Inl e | Inr ds \<Rightarrow>
                  (case months' of Inl e \<Rightarrow> Inl e | Inr mos \<Rightarrow>
                   (case weekdays' of Inl e \<Rightarrow> Inl e | Inr ws \<Rightarrow>
                      Inr (make ms hs ds mos ws tz'))))))))))))"

subsection \<open>match\<close>

definition match ::
  "('d \<Rightarrow> 'z option) \<Rightarrow> ('z \<Rightarrow> 'tz \<Rightarrow> 'z) \<Rightarrow> ('z \<Rightarrow> Parts) \<Rightarrow> 'tz Cron \<Rightarrow> 'd \<Rightarrow>
   matchError + bool" where
  "match unsafeMakeZoned setZone toParts cron date =
     (case unsafeMakeZoned date of
        None \<Rightarrow> Inl IllegalArgumentException
      | Some zoned \<Rightarrow>
          (let adjusted = (case tz cron of Some zone \<Rightarrow> setZone zoned zone | None \<Rightarrow> zoned);
               parts = toParts adjusted
           in Inr
             (if length (minutes cron) \<noteq> 0 \<and> partMinutes parts \<notin> set (minutes cron) then False
              else if length (hours cron) \<noteq> 0 \<and> partHours parts \<notin> set (hours cron) then False
              else if length (months cron) \<noteq> 0 \<and> partMonth parts \<notin> set (months cron) then False
              else if length (days cron) = 0 \<and> length (weekdays cron) = 0 then True
              else if length (weekdays cron) = 0 then partDay parts \<in> set (days cron)
              else if length (days cron) = 0 then partWeekDay parts \<in> set (weekdays cron)
              else partDay parts \<in> set (days cron) \<or> partWeekDay parts \<in> set (weekdays cron))))"

subsection \<open>The values a segment stands for\<close>

text \<open>
  The values that the fields of a segment stand for, read without the normalisation: a
  second reading of a segment, against which what \<^verbatim>\<open>parseSegment\<close> returns is
  compared. \<open>fieldValues\<close> gives the values of one field: the whole range for a bare
  \<^verbatim>\<open>*\<close>, and for another field what the block of \<open>addField\<close> adds to the empty set;
  \<open>None\<close> for a field that is refused. \<open>parsedValues\<close> gives the values of a list of
  fields. A list of fields is \<open>covered\<close> when the values of its first \<open>k\<close> fields, for
  some \<open>k\<close> from 1 on, cover the whole range of the segment. A result is \<open>normalised\<close> for a
  segment when it is the empty set for a covered segment and has the values of all the
  fields otherwise.
\<close>

definition fieldValues ::
  "(string \<Rightarrow> jsnumber) \<Rightarrow> (string \<Rightarrow> string) \<Rightarrow> string \<Rightarrow> SegmentOptions \<Rightarrow> string \<Rightarrow>
   int list option" where
  "fieldValues Number toLocaleLowerCase input' options field =
     (case splitStep Number field of (raw, step) \<Rightarrow>
        if raw = ''*'' \<and> step = None then Some [minValue options..maxValue options]
        else
          (case checkStep input' options step of
             Inl e \<Rightarrow> None
           | Inr step' \<Rightarrow>
               (case addField Number toLocaleLowerCase input' options raw step' [] of
                  Some (Inr vs) \<Rightarrow> Some vs
                | _ \<Rightarrow> None)))"

fun parsedValues ::
  "(string \<Rightarrow> jsnumber) \<Rightarrow> (string \<Rightarrow> string) \<Rightarrow> string \<Rightarrow> SegmentOptions \<Rightarrow> string list \<Rightarrow>
   int list option" where
  "parsedValues Number toLocaleLowerCase input' options [] = Some []"
| "parsedValues Number toLocaleLowerCase input' options (field # rest) =
     (case fieldValues Number toLocaleLowerCase input' options field of
        None \<Rightarrow> None
      | Some a \<Rightarrow>
          (case parsedValues Number toLocaleLowerCase input' options rest of
             None \<Rightarrow> None
           | Some b \<Rightarrow> Some (a @ b)))"

definition coversRange :: "SegmentOptions \<Rightarrow> int list option \<Rightarrow> bool" where
  "coversRange options parsed =
     (case parsed of
        None \<Rightarrow> False
      | Some vs \<Rightarrow> list_all (\<lambda>v. v \<in> set vs) [minValue options..maxValue options])"

definition covered ::
  "(string \<Rightarrow> jsnumber) \<Rightarrow> (string \<Rightarrow> string) \<Rightarrow> string \<Rightarrow> SegmentOptions \<Rightarrow> string list \<Rightarrow> bool" where
  "covered Number toLocaleLowerCase input' options fs =
     list_ex (\<lambda>k. coversRange options
                (parsedValues Number toLocaleLowerCase input' options (take k fs)))
       [1..<Suc (length fs)]"

definition normalised ::
  "(string \<Rightarrow> jsnumber) \<Rightarrow> (string \<Rightarrow> string) \<Rightarrow> string \<Rightarrow> SegmentOptions \<Rightarrow> int list \<Rightarrow> bool" where
  "normalised Number toLocaleLowerCase input' options result =
     (let fs = splitString input' CHR '','' in
      if covered Number toLocaleLowerCase input' options fs then result = []
      else map_option set (parsedValues Number toLocaleLowerCase input' options fs) =
           Some (set result))"

subsection \<open>A host for examples\<close>

text \<open>
  For the examples: \<^verbatim>\<open>Number\<close> on the strings of decimal digits (and on the empty
  string, which it reads as 0), and lower case on the letters A to Z. On other strings
  \<open>decimalNumber\<close> answers \<open>None\<close>. The theorems hold for every reading of numbers;
  these two functions only serve where a theorem is tried on a concrete input.
\<close>

fun digitsValue :: "string \<Rightarrow> int \<Rightarrow> int option" where
  "digitsValue [] acc = Some acc"
| "digitsValue (c # cs) acc =
     (case map_of (zip ''0123456789'' [0, 1, 2, 3, 4, 5, 6, 7, 8, 9]) c of
        None \<Rightarrow> None
      | Some d \<Rightarrow> digitsValue cs (10 * acc + d))"

definition decimalNumber :: "string \<Rightarrow> jsnumber" where
  "decimalNumber s = digitsValue s 0"

definition asciiLowerCase :: "string \<Rightarrow> string" where
  "asciiLowerCase s =
     map (\<lambda>c. case map_of (zip ''ABCDEFGHIJKLMNOPQRSTUVWXYZ'' ''abcdefghijklmnopqrstuvwxyz'') c of
                 Some l \<Rightarrow> l | None \<Rightarrow> c) s"

text \<open>The parts of 2021-01-08 04:00, a Friday (the date of the example in the source).\<close>

definition friday4am :: Parts where
  "friday4am = \<lparr>partMinutes = 0, partHours = 4, partDay = 8, partMonth = 1, partWeekDay = 5\<rparr>"

subsection \<open>Invariants of parseSegment\<close>

text \<open>
  \<open>within\<close>: a set of values without repetition between the bounds of the segment.
  \<open>settled\<close>: such a set that is empty or smaller than the capacity of the segment, as
  the set is whenever the loop of \<^verbatim>\<open>parseSegment\<close> goes on to the next field.
\<close>

definition within :: "SegmentOptions \<Rightarrow> int list \<Rightarrow> bool" where
  "within options vs \<longleftrightarrow>
     distinct vs \<and> set vs \<subseteq> {minValue options..maxValue options}"

definition settled :: "SegmentOptions \<Rightarrow> int list \<Rightarrow> bool" where
  "settled options vs \<longleftrightarrow>
     within options vs \<and>
     (vs = [] \<or> int (length vs) < maxValue options - minValue options + 1)"

section \<open>Theorems about the fork and race constructors\<close>

text \<open>
  C1. For every task \<open>t\<close>, \<open>forkDaemon t\<close> and \<open>forkIn globalScope t\<close> are the same
  node: an \<open>IFork\<close> of \<open>t\<close> whose target scope is \<open>Some globalScope\<close>.
\<close>

theorem forkDaemon_is_forkIn_globalScope:
  "forkDaemon globalScope t = forkIn globalScope t \<and>
   forkDaemon globalScope t = IFork t (Some globalScope)"
  by (simp add: forkDaemon_def forkIn_def)

subsection \<open>What the interpreter does with the nodes\<close>

lemma forkFiber_fst: "fst (forkFiber rt target t w) = nextFiber rt"
  by (simp add: forkFiber_def childScope_def register_def Let_def split: option.splits)

lemma forkFiber_fibers:
  "fibers (snd (forkFiber rt target t w)) =
   (fibers rt)(nextFiber rt \<mapsto>
      \<lparr>status = Suspended, fiberTask = t, owner = target, lifetime = nextScope rt,
       fiberExit = None, interruptRequested = False, racing = None, racer = w\<rparr>)"
  by (simp add: forkFiber_def childScope_def register_def Let_def split: option.splits)

lemma forkFiber_next:
  "nextFiber (snd (forkFiber rt target t w)) = Suc (nextFiber rt)"
  "nextScope (snd (forkFiber rt target t w)) = Suc (nextScope rt)"
  by (simp_all add: forkFiber_def childScope_def register_def Let_def split: option.splits)

lemma forkFiber_scopes:
  "scopes (snd (forkFiber rt target t w)) =
   (let withOwn = (scopes rt)(nextScope rt \<mapsto> \<lparr>parent = Some target, members = {}\<rparr>)
    in case withOwn target of
         None \<Rightarrow> withOwn
       | Some entry \<Rightarrow>
           withOwn(target \<mapsto> entry\<lparr>members := insert (nextFiber rt) (members entry)\<rparr>))"
  by (simp add: forkFiber_def childScope_def register_def Let_def split: option.splits)

lemma forkFiber_eq:
  "forkFiber rt target t w = (nextFiber rt, snd (forkFiber rt target t w))"
  using forkFiber_fst [of rt target t w] by (cases "forkFiber rt target t w") simp

lemma childScope_fst: "fst (childScope rt s) = nextScope rt"
  by (simp add: childScope_def)

lemma childScope_snd:
  "fibers (snd (childScope rt s)) = fibers rt"
  "nextFiber (snd (childScope rt s)) = nextFiber rt"
  "nextScope (snd (childScope rt s)) = Suc (nextScope rt)"
  "scopes (snd (childScope rt s)) =
     (scopes rt)(nextScope rt \<mapsto> \<lparr>parent = Some s, members = {}\<rparr>)"
  by (simp_all add: childScope_def)

lemma advance_fork:
  assumes "fibers rt p = Some fp" and "runnable fp" and "fiberTask fp = IFork t sel"
  shows "advance rt p =
         (let target = (case sel of Some s \<Rightarrow> s | None \<Rightarrow> lifetime fp);
              rt1 = snd (forkFiber rt target t None)
          in rt1\<lparr>fibers := (fibers rt1)(p \<mapsto>
                 fp\<lparr>status := Running, fiberTask := ISucceed (FiberValue (nextFiber rt))\<rparr>)\<rparr>)"
proof -
  define target where "target = (case sel of Some s \<Rightarrow> s | None \<Rightarrow> lifetime fp)"
  obtain rt1 where f: "forkFiber rt target t None = (nextFiber rt, rt1)"
    using forkFiber_eq [of rt target t None] by blast
  then have "rt1 = snd (forkFiber rt target t None)" by simp
  then show ?thesis
    using assms f by (simp add: advance_def runnable_def Let_def target_def [symmetric])
qed

lemma advance_getForkScope:
  assumes "fibers rt p = Some fp" and "runnable fp" and "fiberTask fp = IGetForkScope f"
  shows "advance rt p =
         rt\<lparr>fibers := (fibers rt)(p \<mapsto> fp\<lparr>status := Running, fiberTask := f (lifetime fp)\<rparr>)\<rparr>"
  using assms by (simp add: advance_def runnable_def)

lemma advance_succeed:
  assumes "fibers rt p = Some fp" and "runnable fp" and "fiberTask fp = ISucceed v"
  shows "advance rt p = finish rt p (Success v)"
  using assms by (simp add: advance_def runnable_def)

lemma advance_race:
  assumes "fibers rt p = Some fp" and "runnable fp"
    and "fiberTask fp = IRaceWith left right leftWins rightWins sel"
  shows "advance rt p =
         (let rt0 = (case sel of Some s \<Rightarrow> rt | None \<Rightarrow> snd (childScope rt (lifetime fp)));
              target = (case sel of Some s \<Rightarrow> s | None \<Rightarrow> nextScope rt);
              rt1 = snd (forkFiber rt0 target left (Some p));
              rt2 = snd (forkFiber rt1 target right (Some p))
          in rt2\<lparr>fibers := (fibers rt2)(p \<mapsto>
                 fp\<lparr>status := Suspended,
                    racing := Some (nextFiber rt, Suc (nextFiber rt))\<rparr>)\<rparr>)"
proof -
  define rt0 where "rt0 = (case sel of Some s \<Rightarrow> rt | None \<Rightarrow> snd (childScope rt (lifetime fp)))"
  define target where "target = (case sel of Some s \<Rightarrow> s | None \<Rightarrow> nextScope rt)"
  have c: "(case sel of Some s \<Rightarrow> (s, rt) | None \<Rightarrow> childScope rt (lifetime fp)) = (target, rt0)"
    by (cases sel) (simp_all add: rt0_def target_def childScope_def)
  have n0: "nextFiber rt0 = nextFiber rt"
    by (simp add: rt0_def childScope_snd split: option.splits)
  obtain rt1 where f1: "forkFiber rt0 target left (Some p) = (nextFiber rt, rt1)"
    using forkFiber_eq [of rt0 target left "Some p"] n0 by metis
  have n1: "nextFiber rt1 = Suc (nextFiber rt)"
    using forkFiber_next(1) [of rt0 target left "Some p"] f1 n0 by simp
  obtain rt2 where f2: "forkFiber rt1 target right (Some p) = (Suc (nextFiber rt), rt2)"
    using forkFiber_eq [of rt1 target right "Some p"] n1 by metis
  have r1: "rt1 = snd (forkFiber rt0 target left (Some p))" using f1 by simp
  have r2: "rt2 = snd (forkFiber rt1 target right (Some p))" using f2 by simp
  have "advance rt p = rt2\<lparr>fibers := (fibers rt2)(p \<mapsto>
      fp\<lparr>status := Suspended, racing := Some (nextFiber rt, Suc (nextFiber rt))\<rparr>)\<rparr>"
    using assms c f1 f2 by (simp add: advance_def runnable_def)
  then show ?thesis
    unfolding Let_def rt0_def [symmetric] target_def [symmetric] r1 [symmetric] r2 [symmetric] .
qed

lemma unregister_fibers: "fibers (unregister rt s q) = fibers rt"
  and unregister_next: "nextFiber (unregister rt s q) = nextFiber rt"
  by (simp_all add: unregister_def split: option.splits)

lemma resolveRace_next: "nextFiber (resolveRace rt p q e) = nextFiber rt"
  by (simp add: resolveRace_def split: option.splits prod.splits effect.splits)

lemma resolveRace_other: "x \<noteq> p \<Longrightarrow> fibers (resolveRace rt p q e) x = fibers rt x"
  by (simp add: resolveRace_def split: option.splits prod.splits effect.splits)

lemma resolveRace_idle:
  "fibers rt p = Some fp \<Longrightarrow> racing fp = None \<Longrightarrow> resolveRace rt p q e = rt"
  by (simp add: resolveRace_def)

lemma finish_next: "nextFiber (finish rt q e) = nextFiber rt"
  by (simp add: finish_def Let_def unregister_next resolveRace_next split: option.splits)

lemma finish_other:
  assumes "x \<noteq> q" and "fibers rt q = Some fq" and "racer fq \<noteq> Some x"
  shows "fibers (finish rt q e) x = fibers rt x"
  using assms
  by (auto simp: finish_def Let_def unregister_fibers resolveRace_other split: option.splits)

lemma finish_idle:
  assumes "x \<noteq> q" and "fibers rt x = Some fx" and "racing fx = None"
  shows "fibers (finish rt q e) x = Some fx"
proof (cases "fibers rt q")
  case None
  then show ?thesis using assms by (simp add: finish_def)
next
  case (Some fq)
  show ?thesis
  proof (cases "racer fq = Some x")
    case False
    then show ?thesis using finish_other [OF assms(1) Some False] assms(2) by simp
  next
    case True
    let ?rt2 = "(unregister rt (owner fq) q)\<lparr>fibers :=
        (fibers (unregister rt (owner fq) q))(q \<mapsto> fq\<lparr>status := Done, fiberExit := Some e\<rparr>)\<rparr>"
    have "fibers ?rt2 x = Some fx" using assms by (simp add: unregister_fibers)
    then have "resolveRace ?rt2 x q e = ?rt2" using assms(3) by (rule resolveRace_idle)
    then show ?thesis
      using Some True assms by (simp add: finish_def Let_def unregister_fibers)
  qed
qed

lemma advance_next: "nextFiber rt \<le> nextFiber (advance rt q)"
proof (cases "fibers rt q")
  case None
  then show ?thesis by (simp add: advance_def)
next
  case (Some fq)
  show ?thesis
  proof (cases "runnable fq")
    case False
    then show ?thesis using Some
      by (auto simp: advance_def runnable_def finish_next)
  next
    case True
    show ?thesis
    proof (cases "fiberTask fq")
      case (ISucceed v)
      then show ?thesis using advance_succeed [OF Some True] by (simp add: finish_next)
    next
      case (IFork t sel)
      then show ?thesis using advance_fork [OF Some True] by (simp add: Let_def forkFiber_next)
    next
      case (IGetForkScope f)
      then show ?thesis using advance_getForkScope [OF Some True] by simp
    next
      case (IRaceWith l r lw rw sel)
      then show ?thesis using advance_race [OF Some True]
        by (simp add: Let_def forkFiber_next childScope_snd split: option.splits)
    qed
  qed
qed

text \<open>Only a \<open>Fork\<close> node and a \<open>RaceWith\<close> node create fibers.\<close>

lemma advance_creates:
  "nextFiber (advance rt q) = nextFiber rt \<or>
   (\<exists>fq t sel. fibers rt q = Some fq \<and> fiberTask fq = IFork t sel) \<or>
   (\<exists>fq l r lw rw sel. fibers rt q = Some fq \<and> fiberTask fq = IRaceWith l r lw rw sel)"
proof (cases "fibers rt q")
  case None
  then show ?thesis by (simp add: advance_def)
next
  case (Some fq)
  show ?thesis
  proof (cases "runnable fq")
    case False
    then show ?thesis using Some
      by (auto simp: advance_def runnable_def finish_next)
  next
    case True
    show ?thesis
    proof (cases "fiberTask fq")
      case (ISucceed v)
      then show ?thesis using advance_succeed [OF Some True] by (simp add: finish_next)
    next
      case (IFork t sel)
      then show ?thesis using Some by simp
    next
      case (IGetForkScope f)
      then show ?thesis using advance_getForkScope [OF Some True] by simp
    next
      case (IRaceWith l r lw rw sel)
      then show ?thesis using Some by simp
    qed
  qed
qed

lemma advance_idle:
  assumes "c \<noteq> q" and "c < nextFiber rt" and "fibers rt c = Some fc" and "racing fc = None"
  shows "fibers (advance rt q) c = Some fc"
proof (cases "fibers rt q")
  case None
  then show ?thesis using assms by (simp add: advance_def)
next
  case (Some fq)
  show ?thesis
  proof (cases "runnable fq")
    case False
    then show ?thesis using Some assms finish_idle [OF assms(1,3,4)]
      by (auto simp: advance_def runnable_def)
  next
    case True
    show ?thesis
    proof (cases "fiberTask fq")
      case (ISucceed v)
      then show ?thesis
        using advance_succeed [OF Some True] finish_idle [OF assms(1,3,4)] by simp
    next
      case (IFork t sel)
      then show ?thesis using advance_fork [OF Some True] assms
        by (simp add: Let_def forkFiber_fibers)
    next
      case (IGetForkScope f)
      then show ?thesis using advance_getForkScope [OF Some True] assms by simp
    next
      case (IRaceWith l r lw rw sel)
      then show ?thesis using advance_race [OF Some True] assms
        by (simp add: Let_def forkFiber_fibers forkFiber_next childScope_snd split: option.splits)
    qed
  qed
qed

lemma run_idle:
  assumes "c \<notin> set schedule" and "c < nextFiber rt" and "fibers rt c = Some fc"
    and "racing fc = None"
  shows "fibers (run rt schedule) c = Some fc \<and> c < nextFiber (run rt schedule)"
  using assms
proof (induction schedule arbitrary: rt)
  case Nil
  then show ?case by (simp add: run_def)
next
  case (Cons q qs)
  have 1: "fibers (advance rt q) c = Some fc"
    using advance_idle [of c q rt fc] Cons.prems by simp
  have 2: "c < nextFiber (advance rt q)"
    using advance_next [of rt q] Cons.prems(2) by simp
  have "fibers (run (advance rt q) qs) c = Some fc \<and> c < nextFiber (run (advance rt q) qs)"
    using Cons.IH [OF _ 2 1 Cons.prems(4)] Cons.prems(1) by simp
  then show ?case by (simp add: run_def)
qed



text \<open>
  C5. \<open>raceWith\<close> called without a scope builds an \<open>IRaceWith\<close> node whose scope is
  \<open>None\<close>, and called with a scope it records that scope. When the interpreter runs the
  node, both branches are forked, suspended and with their tasks unchanged, as members of
  one and the same scope: the recorded scope when there is one, and otherwise a new scope
  that the interpreter creates below the ambient scope of the racing fiber and that has
  the two branches as its only members.
\<close>

theorem raceWith_scope_default_and_explicit:
  assumes "fibers rt p = Some fp" and "runnable fp" and "p < nextFiber rt"
    and "fiberTask fp = raceWith left right leftWins rightWins scopeArg"
  shows
  "raceScope (raceWith l r lw rw None) = None \<and>
   raceWith l r lw rw None = IRaceWith l r lw rw None \<and>
   raceScope (raceWith l r lw rw (Some given)) = given \<and>
   raceWith l r lw rw (Some (Some scope)) = IRaceWith l r lw rw (Some scope) \<and>
   (let target = (case raceScope (fiberTask fp) of Some s \<Rightarrow> s | None \<Rightarrow> nextScope rt);
        own = (case raceScope (fiberTask fp) of Some s \<Rightarrow> nextScope rt
               | None \<Rightarrow> Suc (nextScope rt))
    in fibers (advance rt p) (nextFiber rt) =
         Some \<lparr>status = Suspended, fiberTask = left, owner = target, lifetime = own,
               fiberExit = None, interruptRequested = False, racing = None, racer = Some p\<rparr> \<and>
       fibers (advance rt p) (Suc (nextFiber rt)) =
         Some \<lparr>status = Suspended, fiberTask = right, owner = target, lifetime = Suc own,
               fiberExit = None, interruptRequested = False, racing = None, racer = Some p\<rparr> \<and>
       fibers (advance rt p) p =
         Some (fp\<lparr>status := Suspended, racing := Some (nextFiber rt, Suc (nextFiber rt))\<rparr>)) \<and>
   nextFiber (advance rt p) = Suc (Suc (nextFiber rt)) \<and>
   (raceScope (fiberTask fp) = None \<longrightarrow>
      scopes (advance rt p) (nextScope rt) =
        Some \<lparr>parent = Some (lifetime fp),
              members = {nextFiber rt, Suc (nextFiber rt)}\<rparr>) \<and>
   (raceScope (fiberTask fp) = Some s \<and> scopes rt s = Some entry \<and> s < nextScope rt \<longrightarrow>
      scopes (advance rt p) s =
        Some (entry\<lparr>members := insert (nextFiber rt)
                (insert (Suc (nextFiber rt)) (members entry))\<rparr>))"
proof -
  define sel where "sel = (case scopeArg of None \<Rightarrow> None | Some given \<Rightarrow> given)"
  have t: "fiberTask fp = IRaceWith left right leftWins rightWins sel"
    using assms(4) by (simp add: raceWith_def sel_def)
  note st = advance_race [OF assms(1,2) t]
  have rs: "raceScope (fiberTask fp) = sel" using t by simp
  show ?thesis
  proof (cases sel)
    case None
    then show ?thesis
      using st rs assms(3)
      by (simp add: Let_def raceWith_def forkFiber_fibers forkFiber_next forkFiber_scopes
          childScope_snd insert_commute)
  next
    case (Some s')
    then show ?thesis
      using st rs assms(3)
      by (auto simp: Let_def raceWith_def forkFiber_fibers forkFiber_next forkFiber_scopes
          childScope_snd insert_commute)
  qed
qed

theorem raceWith_scope_default_and_explicit_witness:
  "fibers (advance (startRuntime raceOfTwo) 0) 1 =
     Some (waitingFiber (ISucceed (NumberValue 1)) 2 3 (Some 0)) \<and>
   fibers (advance (startRuntime raceOfTwo) 0) 2 =
     Some (waitingFiber (ISucceed (NumberValue 2)) 2 4 (Some 0)) \<and>
   scopes (advance (startRuntime raceOfTwo) 0) 2 = Some \<lparr>parent = Some 1, members = {1, 2}\<rparr> \<and>
   fibers (advance (startRuntime (raceWith (ISucceed (NumberValue 1)) (ISucceed (NumberValue 2))
       handleOfLoser handleOfLoser (Some (Some 0)))) 0) 1 =
     Some (waitingFiber (ISucceed (NumberValue 1)) 0 2 (Some 0)) \<and>
   fibers (advance (startRuntime (raceWith (ISucceed (NumberValue 1)) (ISucceed (NumberValue 2))
       handleOfLoser handleOfLoser (Some (Some 0)))) 0) 2 =
     Some (waitingFiber (ISucceed (NumberValue 2)) 0 3 (Some 0)) \<and>
   scopes (advance (startRuntime (raceWith (ISucceed (NumberValue 1)) (ISucceed (NumberValue 2))
       handleOfLoser handleOfLoser (Some (Some 0)))) 0) 0 =
     Some \<lparr>parent = None, members = {0, 1, 2}\<rparr>"
proof -
  let ?given = "raceWith (ISucceed (NumberValue 1)) (ISucceed (NumberValue 2))
       handleOfLoser handleOfLoser (Some (Some 0)) :: task"
  have ha: "fibers (startRuntime raceOfTwo) 0 = Some (rootFiber raceOfTwo)"
    "runnable (rootFiber raceOfTwo)" "0 < nextFiber (startRuntime raceOfTwo)"
    "fiberTask (rootFiber raceOfTwo) =
       raceWith (ISucceed (NumberValue 1)) (ISucceed (NumberValue 2)) handleOfLoser handleOfLoser None"
    by (simp_all add: startRuntime_def rootFiber_def runnable_def raceOfTwo_def)
  have hb: "fibers (startRuntime ?given) 0 = Some (rootFiber ?given)"
    "runnable (rootFiber ?given)" "0 < nextFiber (startRuntime ?given)"
    "fiberTask (rootFiber ?given) = ?given"
    by (simp_all add: startRuntime_def rootFiber_def runnable_def)
  note a = raceWith_scope_default_and_explicit [OF ha, THEN conjunct2, THEN conjunct2, THEN conjunct2, THEN conjunct2]
  note b = raceWith_scope_default_and_explicit [OF hb, where s = 0 and entry = "\<lparr>parent = None, members = {0}\<rparr>",
      THEN conjunct2, THEN conjunct2, THEN conjunct2, THEN conjunct2]
  have 1: "fibers (advance (startRuntime raceOfTwo) 0) 1 =
     Some (waitingFiber (ISucceed (NumberValue 1)) 2 3 (Some 0)) \<and>
   fibers (advance (startRuntime raceOfTwo) 0) 2 =
     Some (waitingFiber (ISucceed (NumberValue 2)) 2 4 (Some 0)) \<and>
   scopes (advance (startRuntime raceOfTwo) 0) 2 = Some \<lparr>parent = Some 1, members = {1, 2}\<rparr>"
    using a
    by (simp add: startRuntime_def rootFiber_def waitingFiber_def raceOfTwo_def
        raceWith_def Let_def eval_nat_numeral)
  have 2: "fibers (advance (startRuntime ?given) 0) 1 =
     Some (waitingFiber (ISucceed (NumberValue 1)) 0 2 (Some 0)) \<and>
   fibers (advance (startRuntime ?given) 0) 2 =
     Some (waitingFiber (ISucceed (NumberValue 2)) 0 3 (Some 0)) \<and>
   scopes (advance (startRuntime ?given) 0) 0 = Some \<lparr>parent = None, members = {0, 1, 2}\<rparr>"
    using b
    by (auto simp: startRuntime_def rootFiber_def waitingFiber_def raceWith_def Let_def
        eval_nat_numeral)
  show ?thesis using 1 2 by simp
qed



text \<open>
  C7. For every continuation \<open>f\<close>, \<open>forkScopeWith f\<close> is the \<open>IGetForkScope\<close> node
  around \<open>f\<close>, unchanged, and it is not an \<open>IFork\<close> node. When the interpreter runs it,
  the fiber goes on with \<open>f\<close> applied to its ambient fork scope (the scope in which a
  fork without a target registers its child), no fiber is created and no scope changes.
\<close>

theorem forkScopeWith_wraps_without_fork:
  assumes "fibers rt p = Some fp" and "runnable fp" and "p < nextFiber rt"
    and "fiberTask fp = forkScopeWith f"
  shows
  "forkScopeWith g = IGetForkScope g \<and>
   getForkScopeF (forkScopeWith g) = g \<and>
   (\<forall>task scope. forkScopeWith g \<noteq> IFork task scope) \<and>
   fibers (advance rt p) = (fibers rt)(p \<mapsto> fp\<lparr>status := Running, fiberTask := f (lifetime fp)\<rparr>) \<and>
   nextFiber (advance rt p) = nextFiber rt \<and>
   scopes (advance rt p) = scopes rt \<and>
   nextScope (advance rt p) = nextScope rt \<and>
   map_option owner
     (fibers (advance (rt\<lparr>fibers := (fibers rt)(p \<mapsto> fp\<lparr>fiberTask := IFork child None\<rparr>)\<rparr>) p)
        (nextFiber rt)) = Some (lifetime fp) \<and>
   (nextFiber (advance rt q) = nextFiber rt \<or>
    (\<exists>fq t sel. fibers rt q = Some fq \<and> fiberTask fq = IFork t sel) \<or>
    (\<exists>fq l r lw rw sel. fibers rt q = Some fq \<and> fiberTask fq = IRaceWith l r lw rw sel))"
proof -
  have g: "fiberTask fp = IGetForkScope f" using assms(4) by (simp add: forkScopeWith_def)
  let ?rt = "rt\<lparr>fibers := (fibers rt)(p \<mapsto> fp\<lparr>fiberTask := IFork child None\<rparr>)\<rparr>"
  have r: "runnable (fp\<lparr>fiberTask := IFork child None\<rparr>)"
    using assms(2) by (simp add: runnable_def)
  have "fibers ?rt p = Some (fp\<lparr>fiberTask := IFork child None\<rparr>)" by simp
  from advance_fork [OF this r, of child None]
  have "map_option owner (fibers (advance ?rt p) (nextFiber rt)) = Some (lifetime fp)"
    using assms(3) by (simp add: Let_def forkFiber_fibers)
  then show ?thesis
    using advance_getForkScope [OF assms(1,2) g] advance_creates [of rt q]
    by (simp add: forkScopeWith_def)
qed

theorem forkScopeWith_wraps_without_fork_witness:
  "fibers (advance (startRuntime (forkScopeWith (\<lambda>s. IFork (ISucceed UnitValue) (Some s)))) 0) 0 =
     Some ((rootFiber (forkScopeWith (\<lambda>s. IFork (ISucceed UnitValue) (Some s))))
             \<lparr>status := Running, fiberTask := IFork (ISucceed UnitValue) (Some 1)\<rparr>) \<and>
   nextFiber (advance (startRuntime (forkScopeWith (\<lambda>s. IFork (ISucceed UnitValue) (Some s)))) 0) = 1 \<and>
   fibers (advance (startRuntime (forkScopeWith (\<lambda>s. IFork (ISucceed UnitValue) (Some s)))) 0) 1 = None"
proof -
  let ?f = "\<lambda>s::nat. (IFork (ISucceed UnitValue) (Some s) :: task)"
  let ?rt = "startRuntime (forkScopeWith ?f)"
  let ?fp = "rootFiber (forkScopeWith ?f)"
  have h: "fibers ?rt 0 = Some ?fp" "runnable ?fp" "0 < nextFiber ?rt"
    "fiberTask ?fp = forkScopeWith ?f"
    by (simp_all add: startRuntime_def rootFiber_def runnable_def)
  note t = forkScopeWith_wraps_without_fork [OF h, THEN conjunct2, THEN conjunct2, THEN conjunct2]
  show ?thesis
    using t by (simp add: startRuntime_def rootFiber_def)
qed

section \<open>Theorems about closing a scope\<close>

lemma drain_Cons: "snd (drain (r # rs) log) = snd (release r (snd (drain rs log)))"
  by (simp split: prod.splits)

lemma close_open: "snd (close (Scope rs False) log) = snd (drain rs log)"
  by (simp split: prod.splits)

lemma release_child: "snd (release (ChildScope c) log) = snd (close c log)"
  by (simp split: prod.splits)

text \<open>A close only appends to the log it is given.\<close>

lemma drain_log_aux:
  assumes "\<And>r l1 l2. r \<in> set rs \<Longrightarrow> snd (release r (l1 @ l2)) = l1 @ snd (release r l2)"
  shows "snd (drain rs (l1 @ l2)) = l1 @ snd (drain rs l2)"
  using assms
proof (induction rs)
  case Nil
  then show ?case by simp
next
  case (Cons r rs)
  have d: "snd (drain rs (l1 @ l2)) = l1 @ snd (drain rs l2)"
    using Cons by simp
  have "snd (drain (r # rs) (l1 @ l2)) = snd (release r (l1 @ snd (drain rs l2)))"
    by (simp only: drain_Cons d)
  also have "\<dots> = l1 @ snd (release r (snd (drain rs l2)))"
    using Cons.prems [of r l1 "snd (drain rs l2)"] by simp
  also have "\<dots> = l1 @ snd (drain (r # rs) l2)"
    by (simp only: drain_Cons)
  finally show ?case .
qed

lemma close_release_log:
  "snd (close s (l1 @ l2)) = l1 @ snd (close s l2)"
  "snd (release r (l1 @ l2)) = l1 @ snd (release r l2)"
proof (induction s and r arbitrary: l1 l2 and l1 l2)
  case (Scope rs c)
  show ?case
  proof (cases c)
    case True
    then show ?thesis by simp
  next
    case False
    have "snd (drain rs (l1 @ l2)) = l1 @ snd (drain rs l2)"
      by (rule drain_log_aux) (rule Scope.IH)
    then show ?thesis using False by (simp only: close_open)
  qed
next
  case (Finalizer f)
  show ?case by simp
next
  case (ChildScope c)
  show ?case by (simp only: release_child ChildScope.IH)
qed

lemma drain_log: "snd (drain rs (l1 @ l2)) = l1 @ snd (drain rs l2)"
  by (rule drain_log_aux) (rule close_release_log)

lemma drain_snoc: "snd (drain (rs @ [r]) log) = snd (drain rs (snd (release r log)))"
proof (induction rs)
  case Nil
  show ?case by (simp only: append_Nil drain_Cons drain.simps(1) snd_conv)
next
  case (Cons a rs)
  show ?case by (simp only: append_Cons drain_Cons Cons.IH)
qed

lemma close_closed: "closed (fst (close s log))"
  by (cases s) (simp split: prod.splits)

lemma drain_mset_aux:
  assumes "\<And>r log. r \<in> set rs \<Longrightarrow> mset (snd (release r log)) = mset log + mset (pendingOf r)"
  shows "mset (snd (drain rs log)) = mset log + mset (pendingIn rs)"
  using assms
proof (induction rs)
  case Nil
  then show ?case by simp
next
  case (Cons r rs)
  have d: "mset (snd (drain rs log)) = mset log + mset (pendingIn rs)"
    using Cons by simp
  have "mset (snd (drain (r # rs) log)) = mset (snd (drain rs log)) + mset (pendingOf r)"
    using Cons.prems [of r "snd (drain rs log)"] by (simp only: drain_Cons) simp
  then show ?case using d by simp
qed

lemma close_release_mset:
  "mset (snd (close s log)) = mset log + mset (pending s)"
  "mset (snd (release r log)) = mset log + mset (pendingOf r)"
proof (induction s and r arbitrary: log and log)
  case (Scope rs c)
  show ?case
  proof (cases c)
    case True
    then show ?thesis by simp
  next
    case False
    have "mset (snd (drain rs log)) = mset log + mset (pendingIn rs)"
      by (rule drain_mset_aux) (rule Scope.IH)
    then show ?thesis using False by (simp add: close_open del: close.simps)
  qed
next
  case (Finalizer f)
  show ?case by simp
next
  case (ChildScope c)
  show ?case using ChildScope.IH [of log] by (simp add: release_child del: release.simps)
qed

lemma executed_snoc_finalizer:
  "executed (Scope (rs @ [Finalizer f]) False) = f # executed (Scope rs False)"
proof -
  have "executed (Scope (rs @ [Finalizer f]) False) = snd (drain rs ([f] @ []))"
    by (simp add: executed_def close_open drain_snoc del: close.simps)
  also have "\<dots> = [f] @ snd (drain rs [])"
    by (rule drain_log)
  finally show ?thesis by (simp add: executed_def close_open del: close.simps)
qed

lemma executed_snoc_child:
  "executed (Scope (rs @ [ChildScope c]) False) = executed c @ executed (Scope rs False)"
proof -
  have "executed (Scope (rs @ [ChildScope c]) False) = snd (drain rs (snd (close c []) @ []))"
    by (simp add: executed_def close_open drain_snoc release_child del: close.simps release.simps)
  also have "\<dots> = snd (close c []) @ snd (drain rs [])"
    by (rule drain_log)
  finally show ?thesis by (simp add: executed_def close_open del: close.simps)
qed

lemma executed_finalizers: "executed (Scope (map Finalizer fs) False) = rev fs"
proof (induction fs rule: rev_induct)
  case Nil
  then show ?case by (simp add: executed_def)
next
  case (snoc f fs)
  then show ?case using executed_snoc_finalizer [of "map Finalizer fs" f] by simp
qed

lemma close_twice: "close (fst (close s log)) log' = (fst (close s log), log')"
  using close_closed [of s log] by (cases "fst (close s log)") simp

lemma executed_mset: "mset (executed s) = mset (pending s)"
  using close_release_mset(1) [of s "[]"] by (simp add: executed_def)

text \<open>
  C2. Closing an open scope whose registered finalizers are \<open>fs\<close>, in that order, runs
  them as \<open>rev fs\<close>. In general the registration made last is released first: a finalizer
  runs before everything registered earlier, and a child scope is closed, all its
  finalizers run, before anything registered earlier in the parent runs. Every pending
  finalizer runs exactly once (the runs and the pending finalizers are the same
  multiset). Closing the result again leaves the scope and the log as they are: no
  finalizer runs.
\<close>

theorem close_runs_finalizers_in_reverse_once:
  "executed (Scope (map Finalizer fs) False) = rev fs \<and>
   executed (Scope (rs @ [Finalizer f]) False) = f # executed (Scope rs False) \<and>
   executed (fst (addFinalizer (Scope rs False) f log)) = f # executed (Scope rs False) \<and>
   executed (Scope (rs @ [ChildScope c]) False) = executed c @ executed (Scope rs False) \<and>
   mset (executed s) = mset (pending s) \<and>
   close (fst (close s log)) log' = (fst (close s log), log') \<and>
   executed (fst (close s log)) = []"
proof -
  have "executed (fst (addFinalizer (Scope rs False) f log)) = f # executed (Scope rs False)"
    using executed_snoc_finalizer [of rs f] by simp
  moreover have "executed (fst (close s log)) = []"
    by (simp only: executed_def close_twice snd_conv)
  ultimately show ?thesis
    using executed_finalizers [of fs] executed_snoc_finalizer [of rs f]
      executed_snoc_child [of rs c] executed_mset [of s] close_twice [of s log log']
    by blast
qed

section \<open>Theorems about causes\<close>

lemma count_flatten: "count (mset (flatten c)) l = occurrences l c"
  by (induction c) auto

lemma flatten_leaves: "list_all isLeaf (flatten c)"
  by (induction c) auto

text \<open>
  C3. Combining with \<open>Both\<close> is commutative and associative on the leaves (the same
  set, and the same multiset, of leaves); combining with \<open>Then\<close> is associative on the
  ordered list of leaves and is not commutative on it; and no leaf is lost: the leaves of
  a combination are those of the first cause followed by those of the second, and the
  flattening of any cause holds every leaf as often as it stands in the cause, and
  nothing but leaves.
\<close>

theorem cause_combination_laws:
  "set (flatten (combineParallel a b)) = set (flatten (combineParallel b a)) \<and>
   mset (flatten (combineParallel a b)) = mset (flatten (combineParallel b a)) \<and>
   set (flatten (combineParallel a (combineParallel b c))) =
     set (flatten (combineParallel (combineParallel a b) c)) \<and>
   flatten (combineParallel a (combineParallel b c)) =
     flatten (combineParallel (combineParallel a b) c) \<and>
   flatten (combineSequential a (combineSequential b c)) =
     flatten (combineSequential (combineSequential a b) c) \<and>
   flatten (combineSequential (Fail e) (Die d)) \<noteq>
     flatten (combineSequential (Die d) (Fail e)) \<and>
   flatten (combineSequential a b) = flatten a @ flatten b \<and>
   flatten (combineParallel a b) = flatten a @ flatten b \<and>
   count (mset (flatten c)) l = occurrences l c \<and>
   list_all isLeaf (flatten c)"
  using count_flatten [of c l] flatten_leaves [of c]
  by (simp add: combineParallel_def combineSequential_def Un_commute)

section \<open>Theorems about Cron.parse and Cron.match\<close>

lemma set_setAdd: "set (setAdd vs i) = insert i (set vs)"
  by (auto simp: setAdd_def)

lemma distinct_setAdd: "distinct vs \<Longrightarrow> distinct (setAdd vs i)"
  by (simp add: setAdd_def)

lemma set_foldl_setAdd: "set (foldl setAdd acc xs) = set acc \<union> set xs"
  by (induction xs arbitrary: acc) (auto simp: set_setAdd)

lemma set_newSet: "set (newSet xs) = set xs"
  by (simp add: newSet_def set_foldl_setAdd)

lemma addEvery_returns:
  assumes "0 < step"
  shows "\<exists>vs'. addEvery i stop step vs = Some vs' \<and>
           set vs' \<subseteq> set vs \<union> {i..stop} \<and>
           (distinct vs \<longrightarrow> distinct vs')"
proof (induction "nat (stop + 1 - i)" arbitrary: i vs rule: less_induct)
  case less
  show ?case
  proof (cases "i \<le> stop")
    case False
    then show ?thesis by (subst addEvery.simps) simp
  next
    case True
    have "nat (stop + 1 - (i + step)) < nat (stop + 1 - i)"
      using True assms by simp
    from less [OF this, of "setAdd vs i"]
    obtain vs' where r: "addEvery (i + step) stop step (setAdd vs i) = Some vs'"
      and s: "set vs' \<subseteq> set (setAdd vs i) \<union> {i + step..stop}"
      and d: "distinct (setAdd vs i) \<longrightarrow> distinct vs'"
      by blast
    have "addEvery i stop step vs = Some vs'"
      using True r by (subst addEvery.simps) simp
    moreover have "set vs' \<subseteq> set vs \<union> {i..stop}"
      using s True assms by (auto simp: set_setAdd)
    moreover have "distinct vs \<longrightarrow> distinct vs'"
      using d by (simp add: distinct_setAdd)
    ultimately show ?thesis by blast
  qed
qed

lemma checkStep_positive: "checkStep input' options step = Inr step' \<Longrightarrow> 0 < stepOrOne step'"
  by (auto simp: checkStep_def stepOrOne_def split: option.splits if_splits)

lemma addField_returns:
  assumes "0 < stepOrOne step"
  shows "\<exists>r. addField Number toLocaleLowerCase input' options raw step vs = Some r"
proof -
  have "\<And>i stop. \<exists>v. addEvery i stop (stepOrOne step) vs = Some v"
    using addEvery_returns [OF assms] by blast
  then show ?thesis
    unfolding addField_def
    by (auto split: prod.splits option.splits)
qed

lemma addField_within:
  assumes "0 < stepOrOne step" and "within options vs"
    and "addField Number toLocaleLowerCase input' options raw step vs = Some (Inr vs')"
  shows "within options vs'"
proof (cases "raw = ''*''")
  case True
  obtain v where v: "addEvery (minValue options) (maxValue options) (stepOrOne step) vs = Some v"
    and s: "set v \<subseteq> set vs \<union> {minValue options..maxValue options}"
    and d: "distinct vs \<longrightarrow> distinct v"
    using addEvery_returns [OF assms(1)] by blast
  have "vs' = v" using assms(3) True v by (simp add: addField_def)
  then show ?thesis using s d assms(2) by (auto simp: within_def)
next
  case False
  obtain left right where sr: "splitRange Number toLocaleLowerCase raw (aliases options) = (left, right)"
    by (cases "splitRange Number toLocaleLowerCase raw (aliases options)")
  from assms(3) False sr obtain l where l: "left = Some l"
    and lb: "minValue options \<le> l" "l \<le> maxValue options"
    by (auto simp: addField_def split: option.splits if_splits)
  show ?thesis
  proof (cases right)
    case None
    then have "vs' = setAdd vs l"
      using assms(3) False sr l lb by (simp add: addField_def)
    then show ?thesis using assms(2) lb by (auto simp: within_def set_setAdd distinct_setAdd)
  next
    case (Some r0)
    with assms(3) False sr l lb obtain r where r: "r0 = Some r"
      and rb: "minValue options \<le> r" "r \<le> maxValue options" "l \<le> r"
      and a: "map_option Inr (addEvery l r (stepOrOne step) vs) = Some (Inr vs')"
      by (auto simp: addField_def split: option.splits if_splits)
    obtain v where v: "addEvery l r (stepOrOne step) vs = Some v"
      and s: "set v \<subseteq> set vs \<union> {l..r}"
      and d: "distinct vs \<longrightarrow> distinct v"
      using addEvery_returns [OF assms(1)] by blast
    have "vs' = v" using a v by simp
    then show ?thesis using s d assms(2) lb rb by (auto simp: within_def)
  qed
qed

lemma parseFields_returns:
  "\<exists>r. parseFields Number toLocaleLowerCase input' options fs vs = Some r"
proof (induction fs arbitrary: vs)
  case Nil
  show ?case by simp
next
  case (Cons field rest)
  obtain raw step where ss: "splitStep Number field = (raw, step)"
    by (cases "splitStep Number field")
  show ?case
  proof (cases "checkStep input' options step")
    case (Inl e)
    then show ?thesis using ss by simp
  next
    case (Inr step')
    obtain r where r: "addField Number toLocaleLowerCase input' options raw step' vs = Some r"
      using addField_returns [OF checkStep_positive [OF Inr]] by blast
    show ?thesis
    proof (cases r)
      case (Inl e)
      then show ?thesis using ss Inr r by simp
    next
      case (Inr vs')
      then show ?thesis
        using ss \<open>checkStep input' options step = Inr step'\<close> r Cons.IH [of vs']
        by (simp add: Let_def)
    qed
  qed
qed

lemma parseFields_settled:
  assumes "settled options vs"
    and "parseFields Number toLocaleLowerCase input' options fs vs = Some (Inr result)"
  shows "settled options result"
  using assms
proof (induction fs arbitrary: vs)
  case Nil
  then show ?case by simp
next
  case (Cons field rest)
  obtain raw step where ss: "splitStep Number field = (raw, step)"
    by (cases "splitStep Number field")
  have empty: "settled options []" by (simp add: settled_def within_def)
  show ?case
  proof (cases "raw = ''*'' \<and> step = None")
    case True
    then have "result = []" using Cons.prems(2) ss by simp
    then show ?thesis using empty by simp
  next
    case False
    from Cons.prems(2) ss False obtain step' where cs: "checkStep input' options step = Inr step'"
      by (cases "checkStep input' options step") (auto simp: Let_def)
    from Cons.prems(2) ss False cs obtain vs' where
      af: "addField Number toLocaleLowerCase input' options raw step' vs = Some (Inr vs')"
      by (auto simp: Let_def split: option.splits sum.splits)
    have w: "within options vs'"
      using addField_within [OF checkStep_positive [OF cs] _ af] Cons.prems(1)
      by (simp add: settled_def)
    show ?thesis
    proof (cases "int (length vs') \<ge> maxValue options - minValue options + 1")
      case True
      then have "result = []" using Cons.prems(2) ss False cs af by (auto simp: Let_def)
      then show ?thesis using empty by simp
    next
      case small: False
      then have "parseFields Number toLocaleLowerCase input' options rest vs' = Some (Inr result)"
        using Cons.prems(2) ss False cs af by (auto simp: Let_def)
      moreover have "settled options vs'" using w small by (simp add: settled_def)
      ultimately show ?thesis using Cons.IH by blast
    qed
  qed
qed

lemma parseSegment_returns: "\<exists>r. parseSegment Number toLocaleLowerCase input' options = Some r"
  unfolding parseSegment_def by (rule parseFields_returns)

lemma parseSegment_settled:
  assumes "parseSegment Number toLocaleLowerCase input' options = Some (Inr result)"
  shows "settled options result"
  using assms parseFields_settled [of options "[]"]
  unfolding parseSegment_def by (simp add: settled_def within_def)

lemma settled_not_full:
  assumes "settled options vs" and "minValue options \<le> maxValue options"
  shows "set vs \<subseteq> {minValue options..maxValue options} \<and>
         set vs \<noteq> {minValue options..maxValue options}"
proof -
  have sub: "set vs \<subseteq> {minValue options..maxValue options}" and d: "distinct vs"
    using assms(1) by (simp_all add: settled_def within_def)
  have "set vs \<noteq> {minValue options..maxValue options}"
  proof (cases "vs = []")
    case True
    then show ?thesis using assms(2) by auto
  next
    case False
    then have "int (length vs) < maxValue options - minValue options + 1"
      using assms(1) by (simp add: settled_def)
    moreover have "card (set vs) = length vs"
      using d by (rule distinct_card)
    moreover have "int (card {minValue options..maxValue options}) = maxValue options - minValue options + 1"
      using assms(2) by simp
    ultimately show ?thesis by auto
  qed
  then show ?thesis using sub by simp
qed

lemma parseSegment_bare_star:
  "parseSegment Number toLocaleLowerCase ''*'' options = Some (Inr [])"
  by (simp add: parseSegment_def splitString_def splitStep_def Let_def)

lemma parse_returns: "\<exists>r. parse Number toLocaleLowerCase cron tz' = Some r"
proof -
  obtain a b c d e where
    "parseSegment Number toLocaleLowerCase (filter isNonEmpty (splitString cron CHR '' '') ! 0) minuteOptions = Some a"
    "parseSegment Number toLocaleLowerCase (filter isNonEmpty (splitString cron CHR '' '') ! 1) hourOptions = Some b"
    "parseSegment Number toLocaleLowerCase (filter isNonEmpty (splitString cron CHR '' '') ! 2) dayOptions = Some c"
    "parseSegment Number toLocaleLowerCase (filter isNonEmpty (splitString cron CHR '' '') ! 3) monthOptions = Some d"
    "parseSegment Number toLocaleLowerCase (filter isNonEmpty (splitString cron CHR '' '') ! 4) weekdayOptions = Some e"
    using parseSegment_returns by metis
  then show ?thesis by (simp add: parse_def Let_def)
qed

lemma addEvery_accumulates:
  assumes "0 < step"
  shows "\<exists>r r0. addEvery i stop step vs = Some r \<and> addEvery i stop step [] = Some r0 \<and>
           set r = set vs \<union> set r0"
proof (induction "nat (stop + 1 - i)" arbitrary: i vs rule: less_induct)
  case less
  show ?case
  proof (cases "i \<le> stop")
    case False
    have "addEvery i stop step vs = Some vs" "addEvery i stop step [] = Some []"
      using False by (subst addEvery.simps, simp)+
    then show ?thesis by simp
  next
    case True
    have m: "nat (stop + 1 - (i + step)) < nat (stop + 1 - i)"
      using True assms by simp
    from less [OF m, of "setAdd vs i"] obtain r r0 where
      r: "addEvery (i + step) stop step (setAdd vs i) = Some r"
      and r0: "addEvery (i + step) stop step [] = Some r0"
      and s: "set r = set (setAdd vs i) \<union> set r0"
      by blast
    from less [OF m, of "setAdd [] i"] obtain q q0 where
      q: "addEvery (i + step) stop step (setAdd [] i) = Some q"
      and q0: "addEvery (i + step) stop step [] = Some q0"
      and t: "set q = set (setAdd [] i) \<union> set q0"
      by blast
    have "addEvery i stop step vs = Some r"
      using True r by (subst addEvery.simps) simp
    moreover have "addEvery i stop step [] = Some q"
      using True q by (subst addEvery.simps) simp
    moreover have "set r = set vs \<union> set q"
      using s t r0 q0 by (auto simp: set_setAdd)
    ultimately show ?thesis by blast
  qed
qed

lemma addField_accumulates:
  assumes "0 < stepOrOne step"
  shows "(\<exists>e. addField Number toLocaleLowerCase input' options raw step vs = Some (Inl e) \<and>
              addField Number toLocaleLowerCase input' options raw step [] = Some (Inl e)) \<or>
         (\<exists>r r0. addField Number toLocaleLowerCase input' options raw step vs = Some (Inr r) \<and>
              addField Number toLocaleLowerCase input' options raw step [] = Some (Inr r0) \<and>
              set r = set vs \<union> set r0)"
proof -
  have ae: "\<And>i stop. \<exists>r r0. addEvery i stop (stepOrOne step) vs = Some r \<and>
      addEvery i stop (stepOrOne step) [] = Some r0 \<and> set r = set vs \<union> set r0"
    using addEvery_accumulates [OF assms] by blast
  show ?thesis
  proof (cases "raw = ''*''")
    case True
    then show ?thesis
      using ae [of "minValue options" "maxValue options"] by (auto simp: addField_def)
  next
    case False
    obtain left right where sr:
      "splitRange Number toLocaleLowerCase raw (aliases options) = (left, right)"
      by (cases "splitRange Number toLocaleLowerCase raw (aliases options)")
    show ?thesis
    proof (cases left)
      case None
      then show ?thesis using False sr by (simp add: addField_def)
    next
      case (Some l)
      show ?thesis
      proof (cases right)
        case None
        then show ?thesis using False sr Some
          by (auto simp: addField_def set_setAdd)
      next
        case r: (Some r1)
        show ?thesis
        proof (cases r1)
          case None
          then show ?thesis using False sr Some r by (simp add: addField_def)
        next
          case rr: (Some r2)
          show ?thesis
            using False sr Some r rr ae [of l r2] by (auto simp: addField_def)
        qed
      qed
    qed
  qed
qed

lemma capacity_reached:
  assumes "within options vs"
  shows "(maxValue options - minValue options + 1 \<le> int (length vs)) =
         ({minValue options..maxValue options} \<subseteq> set vs)"
proof -
  have d: "card (set vs) = length vs" and sub: "set vs \<subseteq> {minValue options..maxValue options}"
    using assms by (simp_all add: within_def distinct_card)
  have c: "int (card {minValue options..maxValue options}) =
      max 0 (maxValue options - minValue options + 1)"
    by simp
  show ?thesis
  proof
    assume "maxValue options - minValue options + 1 \<le> int (length vs)"
    then have "card {minValue options..maxValue options} \<le> card (set vs)"
      using c d by linarith
    then have "set vs = {minValue options..maxValue options}"
      using sub by (simp add: card_seteq)
    then show "{minValue options..maxValue options} \<subseteq> set vs" by simp
  next
    assume "{minValue options..maxValue options} \<subseteq> set vs"
    then have "card {minValue options..maxValue options} \<le> card (set vs)"
      by (intro card_mono finite_set)
    then show "maxValue options - minValue options + 1 \<le> int (length vs)"
      using c d by linarith
  qed
qed

lemma fieldValues_bare_star:
  assumes "splitStep Number field = (''*'', None)"
  shows "fieldValues Number toLocaleLowerCase input' options field =
         Some [minValue options..maxValue options]"
  using assms by (simp add: fieldValues_def)

lemma fieldValues_other:
  assumes "splitStep Number field = (raw, step)" and "\<not> (raw = ''*'' \<and> step = None)"
  shows "fieldValues Number toLocaleLowerCase input' options field =
         (case checkStep input' options step of
            Inl e \<Rightarrow> None
          | Inr step' \<Rightarrow>
              (case addField Number toLocaleLowerCase input' options raw step' [] of
                 Some (Inr vs) \<Rightarrow> Some vs
               | _ \<Rightarrow> None))"
  using assms by (auto simp: fieldValues_def)

text \<open>What one turn of the loop does, in terms of the values of the field.\<close>

lemma parseFields_step:
  assumes w: "within options vs"
  shows "(case fieldValues Number toLocaleLowerCase input' options field of
            None \<Rightarrow>
              (\<exists>e. parseFields Number toLocaleLowerCase input' options (field # rest) vs =
                 Some (Inl e))
          | Some a \<Rightarrow>
              if {minValue options..maxValue options} \<subseteq> set vs \<union> set a
              then parseFields Number toLocaleLowerCase input' options (field # rest) vs =
                     Some (Inr [])
              else (\<exists>vs'. within options vs' \<and> set vs' = set vs \<union> set a \<and>
                      parseFields Number toLocaleLowerCase input' options (field # rest) vs =
                      parseFields Number toLocaleLowerCase input' options rest vs'))"
proof -
  obtain raw step where ss: "splitStep Number field = (raw, step)"
    by (cases "splitStep Number field")
  show ?thesis
  proof (cases "raw = ''*'' \<and> step = None")
    case True
    then have "fieldValues Number toLocaleLowerCase input' options field =
        Some [minValue options..maxValue options]"
      using ss fieldValues_bare_star by simp
    moreover have "parseFields Number toLocaleLowerCase input' options (field # rest) vs =
        Some (Inr [])"
      using ss True by simp
    ultimately show ?thesis by auto
  next
    case False
    note fv = fieldValues_other [OF ss False, of toLocaleLowerCase input' options]
    show ?thesis
    proof (cases "checkStep input' options step")
      case (Inl e)
      then show ?thesis using fv ss False by (auto simp: Let_def)
    next
      case (Inr step')
      note pos = checkStep_positive [OF Inr]
      from addField_accumulates [OF pos, of Number toLocaleLowerCase input' options raw vs]
      show ?thesis
      proof (elim disjE exE conjE)
        fix e
        assume "addField Number toLocaleLowerCase input' options raw step' vs = Some (Inl e)"
          and "addField Number toLocaleLowerCase input' options raw step' [] = Some (Inl e)"
        then show ?thesis using fv ss False Inr by (auto simp: Let_def)
      next
        fix r r0
        assume a: "addField Number toLocaleLowerCase input' options raw step' vs = Some (Inr r)"
          and a0: "addField Number toLocaleLowerCase input' options raw step' [] = Some (Inr r0)"
          and s: "set r = set vs \<union> set r0"
        have f: "fieldValues Number toLocaleLowerCase input' options field = Some r0"
          using fv Inr a0 by simp
        have wr: "within options r"
          using addField_within [OF pos w a] .
        have cap: "(maxValue options - minValue options + 1 \<le> int (length r)) =
            ({minValue options..maxValue options} \<subseteq> set vs \<union> set r0)"
          using capacity_reached [OF wr] s by simp
        show ?thesis
        proof (cases "{minValue options..maxValue options} \<subseteq> set vs \<union> set r0")
          case True
          then have "parseFields Number toLocaleLowerCase input' options (field # rest) vs =
              Some (Inr [])"
            using ss False Inr a cap by (auto simp: Let_def)
          then show ?thesis using f True by simp
        next
          case nc: False
          then have "parseFields Number toLocaleLowerCase input' options (field # rest) vs =
              parseFields Number toLocaleLowerCase input' options rest r"
            using ss False Inr a cap by (auto simp: Let_def)
          then show ?thesis using f nc wr s by auto
        qed
      qed
    qed
  qed
qed

lemma parseFields_covering_prefix:
  assumes "within options vs" and "pre \<noteq> []"
    and "parsedValues Number toLocaleLowerCase input' options pre = Some S"
    and "{minValue options..maxValue options} \<subseteq> set vs \<union> set S"
  shows "parseFields Number toLocaleLowerCase input' options (pre @ post) vs = Some (Inr [])"
  using assms
proof (induction pre arbitrary: vs S)
  case Nil
  then show ?case by simp
next
  case (Cons f pre)
  from Cons.prems(3) obtain a b where
    fa: "fieldValues Number toLocaleLowerCase input' options f = Some a"
    and pb: "parsedValues Number toLocaleLowerCase input' options pre = Some b"
    and S: "S = a @ b"
    by (auto split: option.splits)
  note st = parseFields_step [OF Cons.prems(1), of Number toLocaleLowerCase input' f "pre @ post"]
  show ?case
  proof (cases "{minValue options..maxValue options} \<subseteq> set vs \<union> set a")
    case True
    then show ?thesis using st fa by simp
  next
    case False
    then obtain vs' where w: "within options vs'" and s: "set vs' = set vs \<union> set a"
      and e: "parseFields Number toLocaleLowerCase input' options (f # pre @ post) vs =
              parseFields Number toLocaleLowerCase input' options (pre @ post) vs'"
      using st fa by auto
    have ne: "pre \<noteq> []"
    proof
      assume "pre = []"
      then have "b = []" using pb by simp
      then show False using False Cons.prems(4) S by simp
    qed
    have "{minValue options..maxValue options} \<subseteq> set vs' \<union> set b"
      using Cons.prems(4) S s by auto
    from Cons.IH [OF w ne pb this] show ?thesis using e by simp
  qed
qed

lemma parseFields_without_cover:
  assumes "within options vs"
    and "parseFields Number toLocaleLowerCase input' options fs vs = Some (Inr r)"
    and "\<And>k S. 1 \<le> k \<Longrightarrow> k \<le> length fs \<Longrightarrow>
           parsedValues Number toLocaleLowerCase input' options (take k fs) = Some S \<Longrightarrow>
           \<not> {minValue options..maxValue options} \<subseteq> set vs \<union> set S"
  shows "\<exists>T. parsedValues Number toLocaleLowerCase input' options fs = Some T \<and>
             set r = set vs \<union> set T"
  using assms
proof (induction fs arbitrary: vs)
  case Nil
  then show ?case by simp
next
  case (Cons f rest)
  note st = parseFields_step [OF Cons.prems(1), of Number toLocaleLowerCase input' f rest]
  from st Cons.prems(2) obtain a where
    fa: "fieldValues Number toLocaleLowerCase input' options f = Some a"
    by (cases "fieldValues Number toLocaleLowerCase input' options f") auto
  have "parsedValues Number toLocaleLowerCase input' options (take 1 (f # rest)) = Some a"
    using fa by simp
  from Cons.prems(3) [OF _ _ this]
  have nc: "\<not> {minValue options..maxValue options} \<subseteq> set vs \<union> set a" by simp
  then obtain vs' where w: "within options vs'" and s: "set vs' = set vs \<union> set a"
    and e: "parseFields Number toLocaleLowerCase input' options (f # rest) vs =
            parseFields Number toLocaleLowerCase input' options rest vs'"
    using st fa by auto
  have r: "parseFields Number toLocaleLowerCase input' options rest vs' = Some (Inr r)"
    using e Cons.prems(2) by simp
  have later: "\<not> {minValue options..maxValue options} \<subseteq> set vs' \<union> set S"
    if k: "1 \<le> k" "k \<le> length rest"
      and p: "parsedValues Number toLocaleLowerCase input' options (take k rest) = Some S"
    for k S
  proof -
    have "parsedValues Number toLocaleLowerCase input' options (take (Suc k) (f # rest)) =
        Some (a @ S)"
      using fa p by simp
    from Cons.prems(3) [OF _ _ this] k
    have "\<not> {minValue options..maxValue options} \<subseteq> set vs \<union> set (a @ S)" by simp
    then show ?thesis using s by (simp add: Un_assoc)
  qed
  have "\<exists>T. parsedValues Number toLocaleLowerCase input' options rest = Some T \<and>
             set r = set vs' \<union> set T"
  proof (rule Cons.IH [OF w r])
    fix k S
    assume "1 \<le> k" "k \<le> length rest"
      "parsedValues Number toLocaleLowerCase input' options (take k rest) = Some S"
    then show "\<not> {minValue options..maxValue options} \<subseteq> set vs' \<union> set S"
      by (rule later)
  qed
  then show ?case using fa s by auto
qed

lemma covered_iff:
  "covered Number toLocaleLowerCase input' options fs =
   (\<exists>k S. 1 \<le> k \<and> k \<le> length fs \<and>
      parsedValues Number toLocaleLowerCase input' options (take k fs) = Some S \<and>
      {minValue options..maxValue options} \<subseteq> set S)"
  (is "?L = ?R")
proof
  assume ?L
  then obtain k where k: "k \<in> set [1..<Suc (length fs)]"
    and c: "coversRange options
              (parsedValues Number toLocaleLowerCase input' options (take k fs))"
    unfolding covered_def list_ex_iff by blast
  from c obtain S where
    "parsedValues Number toLocaleLowerCase input' options (take k fs) = Some S"
    "{minValue options..maxValue options} \<subseteq> set S"
    unfolding coversRange_def list_all_iff by (auto split: option.splits)
  then show ?R using k by (intro exI [of _ k] exI [of _ S]) auto
next
  assume ?R
  then obtain k S where k: "1 \<le> k" "k \<le> length fs"
    and p: "parsedValues Number toLocaleLowerCase input' options (take k fs) = Some S"
    and s: "{minValue options..maxValue options} \<subseteq> set S"
    by blast
  have "coversRange options (parsedValues Number toLocaleLowerCase input' options (take k fs))"
    unfolding coversRange_def list_all_iff using p s by auto
  then show ?L
    unfolding covered_def list_ex_iff using k by (intro bexI [of _ k]) auto
qed

lemma parseSegment_covered:
  assumes "covered Number toLocaleLowerCase input' options (splitString input' CHR '','')"
  shows "parseSegment Number toLocaleLowerCase input' options = Some (Inr [])"
proof -
  let ?fs = "splitString input' CHR '',''"
  from assms obtain k S where k: "1 \<le> k" "k \<le> length ?fs"
    and p: "parsedValues Number toLocaleLowerCase input' options (take k ?fs) = Some S"
    and c: "{minValue options..maxValue options} \<subseteq> set S"
    unfolding covered_iff by blast
  have ne: "take k ?fs \<noteq> []" using k by auto
  have w: "within options []" by (simp add: within_def)
  have "parseFields Number toLocaleLowerCase input' options (take k ?fs @ drop k ?fs) [] =
      Some (Inr [])"
    by (rule parseFields_covering_prefix [OF w ne p]) (use c in simp)
  then show ?thesis by (simp add: parseSegment_def)
qed

lemma parseSegment_normalised:
  assumes "parseSegment Number toLocaleLowerCase input' options = Some (Inr r)"
  shows "normalised Number toLocaleLowerCase input' options r"
proof (cases "covered Number toLocaleLowerCase input' options (splitString input' CHR '','')")
  case True
  then show ?thesis
    using parseSegment_covered [OF True] assms by (simp add: normalised_def)
next
  case False
  have w: "within options []" by (simp add: within_def)
  have "\<exists>T. parsedValues Number toLocaleLowerCase input' options (splitString input' CHR '','') =
         Some T \<and> set r = set [] \<union> set T"
  proof (rule parseFields_without_cover [OF w])
    show "parseFields Number toLocaleLowerCase input' options (splitString input' CHR '','') [] =
        Some (Inr r)"
      using assms by (simp add: parseSegment_def)
  next
    fix k S
    assume "1 \<le> k" "k \<le> length (splitString input' CHR '','')"
      "parsedValues Number toLocaleLowerCase input' options
         (take k (splitString input' CHR '','')) = Some S"
    then show "\<not> {minValue options..maxValue options} \<subseteq> set [] \<union> set S"
      using False unfolding covered_iff by auto
  qed
  then show ?thesis using False by (auto simp: normalised_def)
qed

lemma normalised_make:
  assumes "normalised Number toLocaleLowerCase input' options vs"
  shows "normalised Number toLocaleLowerCase input' options (newSet (sort vs))"
proof (cases "covered Number toLocaleLowerCase input' options (splitString input' CHR '','')")
  case True
  then have "vs = []" using assms by (simp add: normalised_def)
  then show ?thesis using True by (simp add: normalised_def newSet_def)
next
  case False
  then show ?thesis using assms by (simp add: normalised_def set_newSet)
qed

lemma parse_accepted_segments:
  assumes "parse Number toLocaleLowerCase cron tz' = Some (Inr c)"
    and "segs = filter isNonEmpty (splitString cron CHR '' '')"
  shows "\<exists>ms hs ds mos ws.
     parseSegment Number toLocaleLowerCase (segs ! 0) minuteOptions = Some (Inr ms) \<and>
     parseSegment Number toLocaleLowerCase (segs ! 1) hourOptions = Some (Inr hs) \<and>
     parseSegment Number toLocaleLowerCase (segs ! 2) dayOptions = Some (Inr ds) \<and>
     parseSegment Number toLocaleLowerCase (segs ! 3) monthOptions = Some (Inr mos) \<and>
     parseSegment Number toLocaleLowerCase (segs ! 4) weekdayOptions = Some (Inr ws) \<and>
     c = make ms hs ds mos ws tz'"
  using assms(1) unfolding parse_def Let_def assms(2) [symmetric]
  by (auto split: if_splits option.splits sum.splits)

text \<open>
  C8. For every cron expression that \<open>parse\<close> accepts, each of the five sets of the
  \<open>Cron\<close> holds only integers between the bounds of its segment (0-59, 0-23, 1-31, 1-12,
  0-6) and is never the whole range. Each set is normalised: it is the empty set when the
  values of the fields of its segment, up to some field, cover the whole range (a bare
  \<^verbatim>\<open>*\<close> among them, or an exhaustive list or range), and it holds the values of all the
  fields otherwise. Whenever the values of the first fields of a segment cover its range,
  \<^verbatim>\<open>parseSegment\<close> returns the empty set, whatever follows. This holds for every reading
  of numbers and every lower-casing the host may give.
\<close>

theorem parse_sets_within_bounds:
  assumes "parse Number toLocaleLowerCase cron tz' = Some (Inr c)"
  shows "set (minutes c) \<subseteq> {0..59} \<and> set (minutes c) \<noteq> {0..59} \<and>
         set (hours c) \<subseteq> {0..23} \<and> set (hours c) \<noteq> {0..23} \<and>
         set (days c) \<subseteq> {1..31} \<and> set (days c) \<noteq> {1..31} \<and>
         set (months c) \<subseteq> {1..12} \<and> set (months c) \<noteq> {1..12} \<and>
         set (weekdays c) \<subseteq> {0..6} \<and> set (weekdays c) \<noteq> {0..6} \<and>
         parseSegment Number toLocaleLowerCase ''*'' options = Some (Inr []) \<and>
         (let segments = filter isNonEmpty (splitString cron CHR '' '') in
          normalised Number toLocaleLowerCase (segments ! 0) minuteOptions (minutes c) \<and>
          normalised Number toLocaleLowerCase (segments ! 1) hourOptions (hours c) \<and>
          normalised Number toLocaleLowerCase (segments ! 2) dayOptions (days c) \<and>
          normalised Number toLocaleLowerCase (segments ! 3) monthOptions (months c) \<and>
          normalised Number toLocaleLowerCase (segments ! 4) weekdayOptions (weekdays c)) \<and>
         (covered Number toLocaleLowerCase input' options (splitString input' CHR '','') \<longrightarrow>
          parseSegment Number toLocaleLowerCase input' options = Some (Inr []))"
proof -
  define segs where "segs = filter isNonEmpty (splitString cron CHR '' '')"
  from parse_accepted_segments [OF assms segs_def] obtain ms hs ds mos ws where
    p: "parseSegment Number toLocaleLowerCase (segs ! 0) minuteOptions = Some (Inr ms)"
       "parseSegment Number toLocaleLowerCase (segs ! 1) hourOptions = Some (Inr hs)"
       "parseSegment Number toLocaleLowerCase (segs ! 2) dayOptions = Some (Inr ds)"
       "parseSegment Number toLocaleLowerCase (segs ! 3) monthOptions = Some (Inr mos)"
       "parseSegment Number toLocaleLowerCase (segs ! 4) weekdayOptions = Some (Inr ws)"
    and c: "c = make ms hs ds mos ws tz'"
    by blast
  have b1: "set ms \<subseteq> {0..59} \<and> set ms \<noteq> {0..59}"
    using settled_not_full [OF parseSegment_settled [OF p(1)]] by (simp add: minuteOptions_def)
  have b2: "set hs \<subseteq> {0..23} \<and> set hs \<noteq> {0..23}"
    using settled_not_full [OF parseSegment_settled [OF p(2)]] by (simp add: hourOptions_def)
  have b3: "set ds \<subseteq> {1..31} \<and> set ds \<noteq> {1..31}"
    using settled_not_full [OF parseSegment_settled [OF p(3)]] by (simp add: dayOptions_def)
  have b4: "set mos \<subseteq> {1..12} \<and> set mos \<noteq> {1..12}"
    using settled_not_full [OF parseSegment_settled [OF p(4)]] by (simp add: monthOptions_def)
  have b5: "set ws \<subseteq> {0..6} \<and> set ws \<noteq> {0..6}"
    using settled_not_full [OF parseSegment_settled [OF p(5)]] by (simp add: weekdayOptions_def)
  have n: "normalised Number toLocaleLowerCase (segs ! 0) minuteOptions (minutes c)"
    "normalised Number toLocaleLowerCase (segs ! 1) hourOptions (hours c)"
    "normalised Number toLocaleLowerCase (segs ! 2) dayOptions (days c)"
    "normalised Number toLocaleLowerCase (segs ! 3) monthOptions (months c)"
    "normalised Number toLocaleLowerCase (segs ! 4) weekdayOptions (weekdays c)"
    using p [THEN parseSegment_normalised, THEN normalised_make] by (simp_all add: c make_def)
  have bounds: "set (minutes c) \<subseteq> {0..59} \<and> set (minutes c) \<noteq> {0..59} \<and>
         set (hours c) \<subseteq> {0..23} \<and> set (hours c) \<noteq> {0..23} \<and>
         set (days c) \<subseteq> {1..31} \<and> set (days c) \<noteq> {1..31} \<and>
         set (months c) \<subseteq> {1..12} \<and> set (months c) \<noteq> {1..12} \<and>
         set (weekdays c) \<subseteq> {0..6} \<and> set (weekdays c) \<noteq> {0..6}"
    using b1 b2 b3 b4 b5 by (simp add: c make_def set_newSet)
  have star: "parseSegment Number toLocaleLowerCase ''*'' options = Some (Inr [])"
    by (rule parseSegment_bare_star)
  have cov: "covered Number toLocaleLowerCase input' options (splitString input' CHR '','') \<longrightarrow>
      parseSegment Number toLocaleLowerCase input' options = Some (Inr [])"
    using parseSegment_covered by blast
  show ?thesis
    unfolding Let_def segs_def [symmetric]
    using bounds star n cov by blast
qed

theorem parse_sets_within_bounds_witness:
  "parse decimalNumber asciiLowerCase ''0 4 8-14 * *'' (None :: unit option) =
     Some (Inr \<lparr>tz = None, minutes = [0], hours = [4], days = [8, 9, 10, 11, 12, 13, 14],
                 months = [], weekdays = []\<rparr>) \<and>
   set [0 :: int] \<subseteq> {0..59} \<and> set [8, 9, 10, 11, 12, 13, 14 :: int] \<noteq> {1..31} \<and>
   normalised decimalNumber asciiLowerCase ''8-14'' dayOptions [8, 9, 10, 11, 12, 13, 14] \<and>
   parse decimalNumber asciiLowerCase ''5,* 0-23 1-31/2,2-30/2 JAN-dec 0-3,4-6'' (None :: unit option) =
     Some (Inr \<lparr>tz = None, minutes = [], hours = [], days = [], months = [], weekdays = []\<rparr>) \<and>
   covered decimalNumber asciiLowerCase ''5,*'' minuteOptions (splitString ''5,*'' CHR '','') \<and>
   parseSegment decimalNumber asciiLowerCase ''5,*'' minuteOptions = Some (Inr []) \<and>
   covered decimalNumber asciiLowerCase ''1-31/2,2-30/2'' dayOptions
     (splitString ''1-31/2,2-30/2'' CHR '','') \<and>
   parseSegment decimalNumber asciiLowerCase ''1-31/2,2-30/2'' dayOptions = Some (Inr []) \<and>
   parse decimalNumber asciiLowerCase ''*/15 9-17 * jan-mar mon,5'' (None :: unit option) =
     Some (Inr \<lparr>tz = None, minutes = [0, 15, 30, 45], hours = [9, 10, 11, 12, 13, 14, 15, 16, 17],
                 days = [], months = [1, 2, 3], weekdays = [1, 5]\<rparr>) \<and>
   set [1, 5 :: int] \<subseteq> {0..6} \<and> set [1, 2, 3 :: int] \<noteq> {1..12} \<and>
   normalised decimalNumber asciiLowerCase ''mon,5'' weekdayOptions [1, 5]"
proof -
  have a: "parse decimalNumber asciiLowerCase ''0 4 8-14 * *'' (None :: unit option) =
     Some (Inr \<lparr>tz = None, minutes = [0], hours = [4], days = [8, 9, 10, 11, 12, 13, 14],
                 months = [], weekdays = []\<rparr>)"
    by code_simp
  have b: "parse decimalNumber asciiLowerCase ''5,* 0-23 1-31/2,2-30/2 JAN-dec 0-3,4-6'' (None :: unit option) =
     Some (Inr \<lparr>tz = None, minutes = [], hours = [], days = [], months = [], weekdays = []\<rparr>)"
    by code_simp
  have c: "parse decimalNumber asciiLowerCase ''*/15 9-17 * jan-mar mon,5'' (None :: unit option) =
     Some (Inr \<lparr>tz = None, minutes = [0, 15, 30, 45], hours = [9, 10, 11, 12, 13, 14, 15, 16, 17],
                 days = [], months = [1, 2, 3], weekdays = [1, 5]\<rparr>)"
    by code_simp
  have sa: "filter isNonEmpty (splitString ''0 4 8-14 * *'' CHR '' '') =
      [''0'', ''4'', ''8-14'', ''*'', ''*'']"
    by code_simp
  have sc: "filter isNonEmpty (splitString ''*/15 9-17 * jan-mar mon,5'' CHR '' '') =
      [''*/15'', ''9-17'', ''*'', ''jan-mar'', ''mon,5'']"
    by code_simp
  have c1: "covered decimalNumber asciiLowerCase ''5,*'' minuteOptions (splitString ''5,*'' CHR '','')"
    by code_simp
  have c2: "covered decimalNumber asciiLowerCase ''1-31/2,2-30/2'' dayOptions
     (splitString ''1-31/2,2-30/2'' CHR '','')"
    by code_simp
  note ta = parse_sets_within_bounds [OF a, of minuteOptions "''5,*''"]
  note tc = parse_sets_within_bounds [OF c, of dayOptions "''1-31/2,2-30/2''"]
  have na: "normalised decimalNumber asciiLowerCase ''8-14'' dayOptions [8, 9, 10, 11, 12, 13, 14]"
    using ta unfolding sa Let_def by simp
  have nc: "normalised decimalNumber asciiLowerCase ''mon,5'' weekdayOptions [1, 5]"
    using tc unfolding sc Let_def by simp
  show ?thesis
    using a b c c1 c2 na nc ta tc by simp
qed

text \<open>
  C9. When the minute, hour and month checks pass on a date: with both \<open>days\<close> and
  \<open>weekdays\<close> non-empty \<open>match\<close> answers whether the day of the month is in \<open>days\<close>
  or the weekday is in \<open>weekdays\<close>; with one of them non-empty only that set is asked;
  with both empty the answer is true.
\<close>

theorem match_day_or_weekday:
  assumes "unsafeMakeZoned date = Some zoned"
    and "parts = toParts (case tz cron of Some zone \<Rightarrow> setZone zoned zone | None \<Rightarrow> zoned)"
    and "minutes cron = [] \<or> partMinutes parts \<in> set (minutes cron)"
    and "hours cron = [] \<or> partHours parts \<in> set (hours cron)"
    and "months cron = [] \<or> partMonth parts \<in> set (months cron)"
  shows "match unsafeMakeZoned setZone toParts cron date =
     Inr (if days cron \<noteq> [] \<and> weekdays cron \<noteq> []
          then partDay parts \<in> set (days cron) \<or> partWeekDay parts \<in> set (weekdays cron)
          else if days cron \<noteq> [] then partDay parts \<in> set (days cron)
          else if weekdays cron \<noteq> [] then partWeekDay parts \<in> set (weekdays cron)
          else True)"
  using assms by (auto simp: match_def Let_def)

theorem match_day_or_weekday_witness:
  "match Some (\<lambda>zoned zone. zoned) (\<lambda>zoned. zoned)
     \<lparr>tz = (None :: unit option), minutes = [0], hours = [4], days = [8, 9], months = [],
      weekdays = []\<rparr> friday4am = Inr True \<and>
   match Some (\<lambda>zoned zone. zoned) (\<lambda>zoned. zoned)
     \<lparr>tz = (None :: unit option), minutes = [0], hours = [4], days = [9], months = [],
      weekdays = [5]\<rparr> friday4am = Inr True \<and>
   match Some (\<lambda>zoned zone. zoned) (\<lambda>zoned. zoned)
     \<lparr>tz = (None :: unit option), minutes = [0], hours = [4], days = [9], months = [],
      weekdays = [6]\<rparr> friday4am = Inr False \<and>
   match Some (\<lambda>zoned zone. zoned) (\<lambda>zoned. zoned)
     \<lparr>tz = (None :: unit option), minutes = [0], hours = [], days = [], months = [1],
      weekdays = [1]\<rparr> friday4am = Inr False \<and>
   match Some (\<lambda>zoned zone. zoned) (\<lambda>zoned. zoned)
     \<lparr>tz = (None :: unit option), minutes = [], hours = [4], days = [], months = [],
      weekdays = []\<rparr> friday4am = Inr True"
proof -
  let ?id2 = "\<lambda>(zoned :: Parts) (zone :: unit). zoned"
  let ?id = "\<lambda>zoned :: Parts. zoned"
  have 1: "match Some ?id2 ?id \<lparr>tz = None, minutes = [0], hours = [4], days = [8, 9], months = [],
      weekdays = []\<rparr> friday4am = Inr True"
    using match_day_or_weekday [where unsafeMakeZoned = Some and date = friday4am
        and zoned = friday4am and parts = friday4am and toParts = ?id and setZone = ?id2
        and cron = "\<lparr>tz = None, minutes = [0], hours = [4], days = [8, 9], months = [], weekdays = []\<rparr>"]
    by (simp add: friday4am_def)
  have 2: "match Some ?id2 ?id \<lparr>tz = None, minutes = [0], hours = [4], days = [9], months = [],
      weekdays = [5]\<rparr> friday4am = Inr True"
    using match_day_or_weekday [where unsafeMakeZoned = Some and date = friday4am
        and zoned = friday4am and parts = friday4am and toParts = ?id and setZone = ?id2
        and cron = "\<lparr>tz = None, minutes = [0], hours = [4], days = [9], months = [], weekdays = [5]\<rparr>"]
    by (simp add: friday4am_def)
  have 3: "match Some ?id2 ?id \<lparr>tz = None, minutes = [0], hours = [4], days = [9], months = [],
      weekdays = [6]\<rparr> friday4am = Inr False"
    using match_day_or_weekday [where unsafeMakeZoned = Some and date = friday4am
        and zoned = friday4am and parts = friday4am and toParts = ?id and setZone = ?id2
        and cron = "\<lparr>tz = None, minutes = [0], hours = [4], days = [9], months = [], weekdays = [6]\<rparr>"]
    by (simp add: friday4am_def)
  have 4: "match Some ?id2 ?id \<lparr>tz = None, minutes = [0], hours = [], days = [], months = [1],
      weekdays = [1]\<rparr> friday4am = Inr False"
    using match_day_or_weekday [where unsafeMakeZoned = Some and date = friday4am
        and zoned = friday4am and parts = friday4am and toParts = ?id and setZone = ?id2
        and cron = "\<lparr>tz = None, minutes = [0], hours = [], days = [], months = [1], weekdays = [1]\<rparr>"]
    by (simp add: friday4am_def)
  have 5: "match Some ?id2 ?id \<lparr>tz = None, minutes = [], hours = [4], days = [], months = [],
      weekdays = []\<rparr> friday4am = Inr True"
    using match_day_or_weekday [where unsafeMakeZoned = Some and date = friday4am
        and zoned = friday4am and parts = friday4am and toParts = ?id and setZone = ?id2
        and cron = "\<lparr>tz = None, minutes = [], hours = [4], days = [], months = [], weekdays = []\<rparr>"]
    by (simp add: friday4am_def)
  show ?thesis using 1 2 3 4 5 by simp
qed

section \<open>Theorems about hashPassword and verifyPassword\<close>

lemma hexValue_hexDigit_all: "list_all (\<lambda>n. hexValue (hexDigit n) = Some n) [0..<16]"
  by code_simp

lemma hexValue_hexDigit: "n < 16 \<Longrightarrow> hexValue (hexDigit n) = Some n"
  using hexValue_hexDigit_all by (simp add: list_all_iff)

lemma byte_of_digits: "word_of_nat (16 * (unat b div 16) + unat b mod 16) = (b :: byte)"
proof -
  have e: "16 * (unat b div 16) + unat b mod 16 = unat b"
    by (rule mult_div_mod_eq)
  show ?thesis unfolding e by simp
qed

lemma unat_byte_div: "unat (b :: byte) div 16 < 16"
proof -
  have "unat b < 2 ^ LENGTH(8)" by (rule unsigned_less)
  then show ?thesis by simp
qed

lemma fromHexString_toHexString: "fromHexString (toHexString buf) = buf"
proof (induction buf)
  case Nil
  show ?case by (simp add: toHexString_def)
next
  case (Cons b buf)
  have "toHexString (b # buf) =
      hexDigit (unat b div 16) # hexDigit (unat b mod 16) # toHexString buf"
    by (simp add: toHexString_def)
  then show ?case
    using Cons hexValue_hexDigit [OF unat_byte_div [of b]]
      hexValue_hexDigit [of "unat b mod 16"] byte_of_digits [of b]
    by simp
qed

lemma length_uint32BE: "length (uint32BE v) = 4"
  by (simp add: uint32BE_def)

lemma uint_byte_of_int: "uint (word_of_int x :: byte) = x mod 256"
  by (simp add: uint_word_of_int)

lemma uint32_decompose:
  assumes "0 \<le> (v::int)" and "v \<le> 4294967295"
  shows "(v div 16777216 mod 256) * 16777216 + (v div 65536 mod 256) * 65536 +
         (v div 256 mod 256) * 256 + v mod 256 = v"
proof -
  define q1 where "q1 = v div 256"
  define q2 where "q2 = q1 div 256"
  define q3 where "q3 = q2 div 256"
  have d2: "v div 65536 = q2"
    unfolding q2_def q1_def by (simp add: zdiv_zmult2_eq [symmetric])
  have d3: "v div 16777216 = q3"
    unfolding q3_def q2_def q1_def by (simp add: zdiv_zmult2_eq [symmetric])
  have "0 \<le> v div 16777216" and "v div 16777216 < 256"
    using assms by (simp_all add: pos_imp_zdiv_nonneg_iff div_less_iff_less_mult)
  then have m3: "q3 mod 256 = q3" unfolding d3 by simp
  have e1: "v = q1 * 256 + v mod 256" unfolding q1_def by simp
  have e2: "q1 = q2 * 256 + q1 mod 256" unfolding q2_def by simp
  have e3: "q2 = q3 * 256 + q2 mod 256" unfolding q3_def by simp
  have "q3 * 16777216 + (q2 mod 256) * 65536 + (q1 mod 256) * 256 + v mod 256 = v"
    using e1 e2 e3 by linarith
  then show ?thesis
    unfolding d2 d3 m3 q1_def [symmetric] .
qed

lemma uint32BE_value:
  assumes "0 \<le> v" and "v \<le> 4294967295"
  shows "uint (uint32BE v ! 0) * 16777216 + uint (uint32BE v ! 1) * 65536 +
         uint (uint32BE v ! 2) * 256 + uint (uint32BE v ! 3) = v"
proof -
  have "uint32BE v ! 0 = word_of_int (v div 16777216)" "uint32BE v ! 1 = word_of_int (v div 65536)"
    "uint32BE v ! 2 = word_of_int (v div 256)" "uint32BE v ! 3 = word_of_int v"
    by (simp_all add: uint32BE_def)
  then show ?thesis
    using uint32_decompose [OF assms] by (simp only: uint_byte_of_int)
qed

lemma readUInt32BE_at:
  assumes "0 \<le> v" and "v \<le> 4294967295"
  shows "readUInt32BE (pre @ uint32BE v @ post) (length pre) = Inr v"
proof -
  have n: "\<And>k. k < 4 \<Longrightarrow> (pre @ uint32BE v @ post) ! (length pre + k) = uint32BE v ! k"
    by (simp add: nth_append length_uint32BE)
  have "(pre @ uint32BE v @ post) ! length pre = uint32BE v ! 0"
    using n [of 0] by simp
  then show ?thesis
    using n [of 1] n [of 2] n [of 3] uint32BE_value [OF assms]
    by (simp add: readUInt32BE_def length_uint32BE)
qed

lemma write_header:
  assumes "writeUInt32BE (alloc (h + s + 8)) a 0 = Inr c1"
    and "writeUInt32BE c1 b 4 = Inr c2"
  shows "c2 = uint32BE a @ uint32BE b @ replicate (s + h) 0 \<and>
         0 \<le> a \<and> a \<le> 4294967295 \<and> 0 \<le> b \<and> b \<le> 4294967295"
proof -
  have ra: "0 \<le> a \<and> a \<le> 4294967295" and rb: "0 \<le> b \<and> b \<le> 4294967295"
    using assms by (auto simp: writeUInt32BE_def split: if_splits)
  have c1: "c1 = uint32BE a @ replicate (h + s + 4) 0"
    using assms(1) ra by (auto simp: writeUInt32BE_def alloc_def split: if_splits)
  have "c2 = take 4 c1 @ uint32BE b @ drop 8 c1"
    using assms(2) rb by (auto simp: writeUInt32BE_def split: if_splits)
  then have "c2 = uint32BE a @ uint32BE b @ replicate (s + h) 0"
    by (simp add: c1 length_uint32BE add.commute)
  then show ?thesis using ra rb by simp
qed

lemma copy_salt_hash:
  fixes salt hash :: buffer
  assumes "length header = 8"
  shows "copy hash (copy salt (header @ replicate (length salt + length hash) 0) 8) (length salt + 8)
         = header @ salt @ hash"
proof -
  have 1: "copy salt (header @ replicate (length salt + length hash) 0) 8
           = header @ salt @ replicate (length hash) 0"
    using assms by (auto simp: copy_def Let_def min_def replicate_add [symmetric] simp del: replicate_add)
  show ?thesis
    unfolding 1 using assms by (auto simp: copy_def Let_def min_def)
qed

lemma hashPassword_combined:
  assumes "hashPassword randomBytes pbkdf2 config password = Inr hashText"
  shows "\<exists>salt hash.
           randomBytes (saltBytes config) = Inr salt \<and>
           pbkdf2 password salt (iterations config) (hashBytes config) (digest config) = Inr hash \<and>
           int (length salt) \<le> 4294967295 \<and>
           0 \<le> iterations config \<and> iterations config \<le> 4294967295 \<and>
           hashText =
             toHexString (uint32BE (int (length salt)) @ uint32BE (iterations config) @ salt @ hash)"
proof -
  from assms obtain salt where s: "randomBytes (saltBytes config) = Inr salt"
    by (auto simp: hashPassword_def split: sum.splits)
  from assms s obtain hash where
    h: "pbkdf2 password salt (iterations config) (hashBytes config) (digest config) = Inr hash"
    by (auto simp: hashPassword_def split: sum.splits)
  from assms s h obtain c1 where
    c1: "writeUInt32BE (alloc (length hash + length salt + 8)) (int (length salt)) 0 = Inr c1"
    by (auto simp: hashPassword_def Let_def split: sum.splits)
  from assms s h c1 obtain c2 where c2: "writeUInt32BE c1 (iterations config) 4 = Inr c2"
    by (auto simp: hashPassword_def Let_def split: sum.splits)
  have t: "hashText = toHexString (copy hash (copy salt c2 8) (length salt + 8))"
    using assms s h c1 c2 by (simp add: hashPassword_def Let_def)
  note w = write_header [OF c1 c2]
  have "copy hash (copy salt c2 8) (length salt + 8)
        = (uint32BE (int (length salt)) @ uint32BE (iterations config)) @ salt @ hash"
    using w copy_salt_hash [where header = "uint32BE (int (length salt)) @ uint32BE (iterations config)"
        and salt = salt and hash = hash]
    by (simp add: length_uint32BE)
  then show ?thesis using s h w t by simp
qed

lemma verifyPassword_of_combined:
  assumes "0 \<le> it" and "it \<le> 4294967295" and "int (length salt) \<le> 4294967295"
  shows "verifyPassword pbkdf2 config password
           (toHexString (uint32BE (int (length salt)) @ uint32BE it @ salt @ hash))
         = (case pbkdf2 password salt it (int (length hash)) (digest config) of
              Inl err \<Rightarrow> Inl InvalidPassword
            | Inr verify \<Rightarrow> if verify = hash then Inr () else Inl InvalidPassword)"
proof -
  define combined where "combined = uint32BE (int (length salt)) @ uint32BE it @ salt @ hash"
  have r0: "readUInt32BE combined 0 = Inr (int (length salt))"
    using readUInt32BE_at [of "int (length salt)" "[]" "uint32BE it @ salt @ hash"] assms(3)
    by (simp add: combined_def)
  have r4: "readUInt32BE combined 4 = Inr it"
    using readUInt32BE_at [OF assms(1,2), of "uint32BE (int (length salt))" "salt @ hash"]
    by (simp add: combined_def length_uint32BE)
  have len: "int (length combined) - int (length salt) - 8 = int (length hash)"
    by (simp add: combined_def length_uint32BE)
  have sl: "bufferSlice combined 8 (int (length salt) + 8) = salt"
    by (simp add: bufferSlice_def combined_def length_uint32BE nat_add_distrib)
  have st: "toBinaryString combined (int (length salt) + 8) = map unat hash"
    by (simp add: toBinaryString_def combined_def length_uint32BE nat_add_distrib)
  have inj: "\<And>v. (toBinaryString v 0 = map unat hash) = (v = hash)"
    unfolding toBinaryString_def by (simp add: inj_map_eq_map)
  show ?thesis
    unfolding combined_def [symmetric]
    by (simp add: verifyPassword_def fromHexString_toHexString r0 r4 len sl st Let_def
        inj split: sum.splits)
qed

text \<open>
  C10. With \<^verbatim>\<open>randomBytes\<close> and \<^verbatim>\<open>pbkdf2\<close> as total functions, \<^verbatim>\<open>pbkdf2\<close>
  giving as many bytes as it is asked for: when \<open>hashPassword\<close> produces the text
  \<open>hashText\<close> for a password, \<open>verifyPassword\<close> succeeds on that password and text,
  since the header gives back the length of the salt and the iteration count, and with them
  the salt and the length of the hash. And when the two numbers of the header can be read
  and the hash computed again differs from the stored one, \<open>verifyPassword\<close> fails with
  \<open>InvalidPassword\<close>.
\<close>

theorem verifyPassword_accepts_hashPassword:
  "(hashPassword randomBytes pbkdf2 config password = Inr hashText \<and>
    (\<forall>salt hash.
       pbkdf2 password salt (iterations config) (hashBytes config) (digest config) = Inr hash \<longrightarrow>
       int (length hash) = hashBytes config)
    \<longrightarrow> verifyPassword pbkdf2 config password hashText = Inr ()) \<and>
   (readUInt32BE (fromHexString otherText) 0 = Inr saltBytes' \<and>
    readUInt32BE (fromHexString otherText) 4 = Inr iterations' \<and>
    pbkdf2 otherPassword (bufferSlice (fromHexString otherText) 8 (saltBytes' + 8)) iterations'
      (int (length (fromHexString otherText)) - saltBytes' - 8) (digest config) = Inr verify \<and>
    toBinaryString verify 0 \<noteq> toBinaryString (fromHexString otherText) (saltBytes' + 8)
    \<longrightarrow> verifyPassword pbkdf2 config otherPassword otherText = Inl InvalidPassword)"
proof (intro conjI impI)
  assume a: "hashPassword randomBytes pbkdf2 config password = Inr hashText \<and>
    (\<forall>salt hash.
       pbkdf2 password salt (iterations config) (hashBytes config) (digest config) = Inr hash \<longrightarrow>
       int (length hash) = hashBytes config)"
  then obtain salt hash where
    h: "pbkdf2 password salt (iterations config) (hashBytes config) (digest config) = Inr hash"
    and b: "int (length salt) \<le> 4294967295" "0 \<le> iterations config"
      "iterations config \<le> 4294967295"
    and t: "hashText =
      toHexString (uint32BE (int (length salt)) @ uint32BE (iterations config) @ salt @ hash)"
    using hashPassword_combined [of randomBytes pbkdf2 config password hashText] by blast
  have l: "int (length hash) = hashBytes config" using a h by blast
  show "verifyPassword pbkdf2 config password hashText = Inr ()"
    unfolding t verifyPassword_of_combined [OF b(2,3,1)] l h by simp
next
  assume "readUInt32BE (fromHexString otherText) 0 = Inr saltBytes' \<and>
    readUInt32BE (fromHexString otherText) 4 = Inr iterations' \<and>
    pbkdf2 otherPassword (bufferSlice (fromHexString otherText) 8 (saltBytes' + 8)) iterations'
      (int (length (fromHexString otherText)) - saltBytes' - 8) (digest config) = Inr verify \<and>
    toBinaryString verify 0 \<noteq> toBinaryString (fromHexString otherText) (saltBytes' + 8)"
  then show "verifyPassword pbkdf2 config otherPassword otherText = Inl InvalidPassword"
    by (simp add: verifyPassword_def Let_def)
qed

theorem verifyPassword_accepts_hashPassword_witness:
  "hashPassword countingBytes repeatKey exampleConfig ''pw'' = Inr ''00000002000001020102040404'' \<and>
   verifyPassword repeatKey exampleConfig ''pw'' ''00000002000001020102040404'' = Inr () \<and>
   verifyPassword repeatKey exampleConfig ''pwd'' ''00000002000001020102040404'' =
     Inl InvalidPassword"
proof -
  let ?text = "''00000002000001020102040404''"
  have h: "hashPassword countingBytes repeatKey exampleConfig ''pw'' = Inr ?text"
    by code_simp
  have k: "\<forall>salt hash.
      repeatKey ''pw'' salt (iterations exampleConfig) (hashBytes exampleConfig)
        (digest exampleConfig) = Inr hash \<longrightarrow>
      int (length hash) = hashBytes exampleConfig"
    by (auto simp: repeatKey_def exampleConfig_def split: if_splits)
  have r0: "readUInt32BE (fromHexString ?text) 0 = Inr 2" by code_simp
  have r4: "readUInt32BE (fromHexString ?text) 4 = Inr 258" by code_simp
  have v: "repeatKey ''pwd'' (bufferSlice (fromHexString ?text) 8 (2 + 8)) 258
      (int (length (fromHexString ?text)) - 2 - 8) (digest exampleConfig) = Inr [5, 5, 5]"
    by code_simp
  have d: "toBinaryString [5, 5, 5] 0 \<noteq> toBinaryString (fromHexString ?text) (2 + 8)"
    by code_simp
  note t = verifyPassword_accepts_hashPassword [of countingBytes repeatKey exampleConfig "''pw''"
      ?text ?text 2 258 "''pwd''" "[5, 5, 5]"]
  show ?thesis using t h k r0 r4 v d by blast
qed

end
